theory Spec2Isabelle
  imports Complex_Main "HOL-Library.Stream" "HOL-Library.Sublist"
begin

section \<open>Strings\<close>

text \<open>
  A JavaScript string is a sequence of UTF-16 code units. The model covers the code units
  U+0000 to U+00FF, one \<^typ>\<open>char\<close> each; \<open>toLowerCase\<close>, \<open>trim\<close> and the
  character classes of the regular expression below are the ECMAScript ones restricted to
  that range.
\<close>

definition code :: "char \<Rightarrow> nat" where
  "code c = of_char c"

text \<open>ECMAScript \<open>WhiteSpace\<close> and \<open>LineTerminator\<close>: TAB, LF, VT, FF, CR, SP, NBSP.\<close>

definition isLineTerminator :: "char \<Rightarrow> bool" where
  "isLineTerminator c = (code c = 10 \<or> code c = 13)"

definition isWhiteSpace :: "char \<Rightarrow> bool" where
  "isWhiteSpace c = ((9 \<le> code c \<and> code c \<le> 13) \<or> code c = 32 \<or> code c = 160)"

text \<open>The class \<open>\w\<close>: \<open>[A-Za-z0-9_]\<close>.\<close>

definition isWordChar :: "char \<Rightarrow> bool" where
  "isWordChar c = ((65 \<le> code c \<and> code c \<le> 90) \<or> (97 \<le> code c \<and> code c \<le> 122)
     \<or> (48 \<le> code c \<and> code c \<le> 57) \<or> code c = 95)"

definition lowerChar :: "char \<Rightarrow> char" where
  "lowerChar c = (if (65 \<le> code c \<and> code c \<le> 90) \<or> (192 \<le> code c \<and> code c \<le> 222 \<and> code c \<noteq> 215)
     then char_of (code c + 32) else c)"

definition toLowerCase :: "string \<Rightarrow> string" where
  "toLowerCase s = map lowerChar s"

definition trimStart :: "string \<Rightarrow> string" where
  "trimStart s = dropWhile isWhiteSpace s"

definition trimEnd :: "string \<Rightarrow> string" where
  "trimEnd s = rev (dropWhile isWhiteSpace (rev s))"

definition trim :: "string \<Rightarrow> string" where
  "trim s = trimEnd (trimStart s)"

text \<open>\<open>s.includes(t)\<close>\<close>

fun str_includes :: "string \<Rightarrow> string \<Rightarrow> bool" where
  "str_includes [] t = (t = [])"
| "str_includes (x # xs) t = (prefix t (x # xs) \<or> str_includes xs t)"

text \<open>\<open>s.substring(a, b)\<close> for \<open>a \<le> b\<close>.\<close>

definition slice :: "nat \<Rightarrow> nat \<Rightarrow> string \<Rightarrow> string" where
  "slice a b s = take (b - a) (drop a s)"

section \<open>The regular expression of the Decision Extractor\<close>

text \<open>
  The fragment of ECMAScript regular expressions that
  \<^verbatim>\<open>/\bi\s+want\s+(?:the\s+)?(.+?)\s+to\s+jump\b/\<close> uses: literal text, the classes
  \<open>\s\<close> and \<open>.\<close> under a greedy or a lazy \<open>+\<close>, a greedy optional group, one
  capturing group, the assertion \<open>\b\<close>, and sequencing.
\<close>

datatype cls = Space | Dot

fun inCls :: "cls \<Rightarrow> char \<Rightarrow> bool" where
  "inCls Space c = isWhiteSpace c"
| "inCls Dot c = (\<not> isLineTerminator c)"

datatype greed = Greedy | Lazy

datatype rx =
    Lit string
  | Plus greed cls
  | Opt rx
  | Capture rx
  | WordBoundary
  | Seq rx rx

text \<open>
  A matcher state: the input consumed so far (from the start of the whole input), the
  input that remains, and the capture of group 1 as a pair of indices into the input.
\<close>

type_synonym mstate = "string \<times> string \<times> (nat \<times> nat) option"

definition advance :: "mstate \<Rightarrow> nat \<Rightarrow> mstate" where
  "advance st k = (case st of (seen, rest, cap) \<Rightarrow> (seen @ take k rest, drop k rest, cap))"

text \<open>
  Backtracking as a list of successes: \<open>m r st\<close> lists the states in which \<open>r\<close> can
  end when started in \<open>st\<close>, in the order in which a backtracking matcher tries them.
  A greedy \<open>+\<close> tries the longest run first, a lazy one the shortest; a greedy optional
  group tries the group first and skips it only when that fails.
\<close>

fun m :: "rx \<Rightarrow> mstate \<Rightarrow> mstate list" where
  "m (Lit l) st = (if prefix l (fst (snd st)) then [advance st (length l)] else [])"
| "m (Plus g c) st =
     (let n = length (takeWhile (inCls c) (fst (snd st)));
          ks = (case g of Greedy \<Rightarrow> rev [1..<Suc n] | Lazy \<Rightarrow> [1..<Suc n])
      in map (advance st) ks)"
| "m (Opt r) st = m r st @ [st]"
| "m (Capture r) st =
     map (\<lambda>st'. (fst st', fst (snd st'), Some (length (fst st), length (fst st')))) (m r st)"
| "m WordBoundary st =
     (let a = (fst st \<noteq> [] \<and> isWordChar (last (fst st)));
          b = (fst (snd st) \<noteq> [] \<and> isWordChar (hd (fst (snd st))))
      in if a \<noteq> b then [st] else [])"
| "m (Seq r1 r2) st = concat (map (m r2) (m r1 st))"

text \<open>
  \<open>RegExp.prototype.exec\<close> without the global flag: the start positions are tried from
  left to right, and the first success of the matcher at the first position that has one is
  the match. The result is the index of the match and the final matcher state.
\<close>

fun search :: "rx \<Rightarrow> string \<Rightarrow> string \<Rightarrow> (nat \<times> mstate) option" where
  "search r seen [] =
     (case m r (seen, [], None) of [] \<Rightarrow> None | st # _ \<Rightarrow> Some (length seen, st))"
| "search r seen (x # xs) =
     (case m r (seen, x # xs, None) of
        [] \<Rightarrow> search r (seen @ [x]) xs
      | st # _ \<Rightarrow> Some (length seen, st))"

definition match :: "rx \<Rightarrow> string \<Rightarrow> (nat \<times> mstate) option" where
  "match r s = search r [] s"

definition wantToJump :: rx where
  "wantToJump =
     Seq WordBoundary (Seq (Lit ''i'') (Seq (Plus Greedy Space) (Seq (Lit ''want'')
      (Seq (Plus Greedy Space) (Seq (Opt (Seq (Lit ''the'') (Plus Greedy Space)))
      (Seq (Capture (Plus Lazy Dot)) (Seq (Plus Greedy Space) (Seq (Lit ''to'')
      (Seq (Plus Greedy Space) (Seq (Lit ''jump'') WordBoundary))))))))))"

datatype jsError = TypeError

text \<open>
  \<open>extractPersonFromDecision\<close>: \<open>null\<close> is \<open>None\<close>. Reading \<open>[1]\<close> of a match whose
  group 1 did not take part gives \<open>undefined\<close>, and \<open>.trim()\<close> on it throws.
\<close>

definition extractPersonFromDecision :: "string \<Rightarrow> jsError + string option" where
  "extractPersonFromDecision utterance =
     (let lower = trim (toLowerCase utterance) in
      case match wantToJump lower of
        None \<Rightarrow> Inr None
      | Some (idx, seen, rest, cap) \<Rightarrow>
          (case cap of
             None \<Rightarrow> Inl TypeError
           | Some (a, b) \<Rightarrow> Inr (Some (trim (slice a b lower)))))"

section \<open>Messages and the session context\<close>

datatype role = Assistant | User | System

record Message =
  role :: role
  content :: string

record DMContext =
  lastResult :: string
  extractedPerson :: string
  messages :: "Message list"
  isFirstMessage :: bool

text \<open>
  The two seed messages. The en dash (U+2013) of the greeting lies outside the modelled
  range of code units and is written as the three bytes of its UTF-8 encoding; the
  machine only stores and forwards these texts.
\<close>

definition systemPrompt :: string where
  "systemPrompt =
     ''You are a virtual assistant participating in a study on moral reasoning. ''
     @ ''You simulate structured dialogue to help a participant reflect on a hypothetical ''
     @ ''moral dilemma. Your role is purely conversational and for academic research ''
     @ ''purposes only. Your task is to discuss the hypothetical dilemma with the ''
     @ ''user. Guide them through reasoning about moral choices until they reach ''
     @ ''a decision. Background: the situation is completely hypothetical and no ''
     @ ''one is being harmed. The user will describe or has described a dilemma ''
     @ ''involving four fictional people (for example: Pilot, Teacher, Doctor, ''
     @ ''Prodigy). Review the chat history to understand the dilemma before responding. ''
     @ ''Interaction Rules: Treat everything as fictional and research-oriented. ''
     @ ''Stay neutral and non-judgmental, your job is to help the participant reason, ''
     @ ''not to persuade. Do not make moral evaluations. Do not add opinions not ''
     @ ''grounded in the user''
     @ [CHR 0x27]
     @ ''s reasoning. Keep the discussion focused on the dilemma. If the user expresses ''
     @ ''confusion or hesitation, gently encourage reflection using open-ended ''
     @ ''questions. Dialogue Flow: confirm understanding of the dilemma in one ''
     @ ''sentence. Ask short, neutral questions to help the user explore their ''
     @ ''reasoning. After the user discusses the character or characters, ask the ''
     @ ''user come to a decision. One example is: ''
     @ [CHR 0x27]
     @ ''What makes you hesitate?''
     @ [CHR 0x27]
     @ '' Another example is: ''
     @ [CHR 0x27]
     @ ''Which value feels most important in this decision?''
     @ [CHR 0x27]
     @ '', another example is: ''
     @ [CHR 0x27]
     @ ''How do you think others in the scenario might feel?''
     @ [CHR 0x27]
     @ '' Output Style: Keep replies concise and neutral (1 sentence). Use a calm ''
     @ ''and professional tone. Do not include real-world instructions or advice. ''
     @ ''Audience: participants in a moral reasoning research study. Ethical Constraints: ''
     @ ''never simulate or encourage real-world violence. Decline any non-hypothetical ''
     @ ''harmful requests. You may clarify that the discussion is fictional if ''
     @ ''needed.''"

definition greeting :: string where
  "greeting =
     ''Hello! We have a moral dilemma to talk about! Your task is to indicate ''
     @ ''which person you would choose to sacrifice in the following moral dilemma. ''
     @ ''Four people are in a hot air balloon. The balloon is losing height and ''
     @ ''about to crash into the mountains. Having thrown everything imaginable ''
     @ ''out of the balloon, including food, sandbags and parachutes, their only ''
     @ ''hope is for one of them to jump to their certain death to give the balloon ''
     @ ''the extra height to clear the mountains and save the other three. The ''
     @ ''four people are: Dr Robert Lewis - a cancer research scientist, who believes ''
     @ ''he is about to discover a cure for most common types of cancer. He is ''
     @ ''a good friend of Susanne and William. Mrs. Susanne Harris - a primary ''
     @ ''school teacher. She is over the moon because she is 7 months pregnant ''
     @ ''with her second child. Mr. William Harris ''
     @ [CHR 0xE2, CHR 0x80, CHR 0x93]
     @ '' husband of Susanne, who he loves very much. He is the pilot of the balloon ''
     @ ''and the only one on board with balloon flying experience. Miss Heather ''
     @ ''Sloan - a 9-year-old music prodigy, considered by many to be a twenty-first ''
     @ ''century Mozart. Come to an agreement about who is to be allowed to stay ''
     @ ''in the balloon, and who is to jump. You must discuss all 4 balloon passengers ''
     @ ''and consider the reasons why they should or shouldnt remain in the balloon.''"

definition initialContext :: DMContext where
  "initialContext =
     \<lparr> lastResult = [],
       extractedPerson = [],
       messages = [\<lparr> role = System, content = systemPrompt \<rparr>,
                   \<lparr> role = Assistant, content = greeting \<rparr>],
       isFirstMessage = True \<rparr>"

section \<open>The external services\<close>

text \<open>
  What the machine asks of the outside world when it enters a state: the actor it invokes
  and the input it hands over.
\<close>

datatype call =
    FhSetVoice string
  | FhAttend
  | FhSpeak string bool
  | FhListen
  | ChatCompletion "Message list"

text \<open>A promise settles: it resolves with a value or it rejects.\<close>

datatype 'a promise = Resolved 'a | Rejected

text \<open>
  The answer of the completion endpoint as \<open>fetchChatCompletion\<close> reads it: the
  \<open>ok\<close> flag, the status, and the body, which is not JSON, or JSON without a
  \<open>message\<close> object, or JSON with the text \<open>message.content\<close>.
\<close>

datatype body = NotJson | NoMessage | MessageContent string

record response =
  ok :: bool
  status :: nat
  payload :: body

text \<open>
  The body of the \<open>try\<close> block of \<open>fetchChatCompletion\<close>: a rejected \<open>fetch\<close>,
  a response that is not \<open>ok\<close>, a body that does not parse and a body without
  \<open>message\<close> all throw.
\<close>

definition fetchChatCompletion_try :: "response promise \<Rightarrow> unit + string" where
  "fetchChatCompletion_try fetched =
     (case fetched of
        Rejected \<Rightarrow> Inl ()
      | Resolved resp \<Rightarrow>
          if \<not> ok resp then Inl ()
          else (case payload resp of
                  NotJson \<Rightarrow> Inl ()
                | NoMessage \<Rightarrow> Inl ()
                | MessageContent assistantMessage \<Rightarrow> Inr assistantMessage))"

text \<open>The \<open>catch\<close> block turns every exception into a returned text.\<close>

definition fetchChatCompletion :: "Message list \<Rightarrow> response promise \<Rightarrow> string promise" where
  "fetchChatCompletion msgs fetched =
     (case fetchChatCompletion_try fetched of
        Inr assistantMessage \<Rightarrow> Resolved assistantMessage
      | Inl _ \<Rightarrow>
          Resolved ''Error while connecting to the language model. Probably ssh tunnel is not active.'')"

text \<open>The actor \<open>chatCompletion\<close> awaits \<open>fetchChatCompletion\<close> and returns its result.\<close>

definition chatCompletion :: "Message list \<Rightarrow> response promise \<Rightarrow> string promise" where
  "chatCompletion msgs fetched = fetchChatCompletion msgs fetched"

section \<open>The state machine\<close>

text \<open>
  The state nodes of \<open>dmMachine\<close>. \<open>SetupFurhat\<close>, \<open>Loop\<close> and \<open>Manipulation\<close>
  are compound; the two states called \<open>Listening\<close> and the states of \<open>Loop\<close> carry
  the name of their parent.
\<close>

datatype node =
    SetupFurhat | SetVoice | AttendUser
  | Loop | Loop_Speaking | Loop_Listening | Loop_ProcessingResponse
  | Manipulation | DetermineTheManipulationState
  | SpeakingWithPause_Condition1 | SpeakingWithLaughter_Condition2
  | SpeakingWithBuffer_Condition3
  | Manipulation_Listening | Clarify
  | End | Done

text \<open>
  The events an invoked actor sends back: done with its output, or error. \<open>Init\<close> is the
  event with which the machine is started.
\<close>

datatype event = Init | OnDone string | OnError

fun event_output :: "event \<Rightarrow> string" where
  "event_output (OnDone out) = out"
| "event_output _ = []"

definition actorEvent :: "string promise \<Rightarrow> event" where
  "actorEvent p = (case p of Resolved out \<Rightarrow> OnDone out | Rejected \<Rightarrow> OnError)"

text \<open>
  \<open>Math.random()\<close> reads the next value of a source of draws from \<open>[0, 1)\<close>; a guard
  returns its verdict and what is left of the source.
\<close>

type_synonym random = "real stream"

definition Math_random :: "random \<Rightarrow> real \<times> random" where
  "Math_random r = (shd r, stl r)"

type_synonym guard = "DMContext \<Rightarrow> event \<Rightarrow> random \<Rightarrow> bool \<times> random"

definition pure_guard :: "(DMContext \<Rightarrow> event \<Rightarrow> bool) \<Rightarrow> guard" where
  "pure_guard g = (\<lambda>c ev r. (g c ev, r))"

definition no_guard :: guard where
  "no_guard = pure_guard (\<lambda>c ev. True)"

subsection \<open>The named guards\<close>

definition hasDecision :: guard where
  "hasDecision = pure_guard (\<lambda>c ev.
     (case rev (filter (\<lambda>msg. role msg = User) (messages c)) of
        [] \<Rightarrow> False
      | lastUserMessage # _ \<Rightarrow> extractPersonFromDecision (content lastUserMessage) \<noteq> Inr None))"

definition saidYes :: guard where
  "saidYes = pure_guard (\<lambda>c ev.
     (let lastResult = trim (toLowerCase (lastResult c)) in
      lastResult = ''yes'' \<or> lastResult = ''yeah'' \<or> lastResult = ''positive'' \<or>
      lastResult = ''yep'' \<or> str_includes lastResult ''yes''))"

definition saidNo :: guard where
  "saidNo = pure_guard (\<lambda>c ev.
     (let lastResult = trim (toLowerCase (lastResult c)) in
      lastResult = ''no'' \<or> lastResult = ''nope'' \<or> str_includes lastResult ''no''))"

text \<open>
  The two random guards compare a draw with the value of the expression \<^verbatim>\<open>1 / 3\<close>, or
  \<^verbatim>\<open>2 / 3\<close>: a division in IEEE 754 double precision, whose result is the double nearest
  to the quotient. These doubles are \<open>6004799503160661 / 2^54\<close> and
  \<open>6004799503160661 / 2^53\<close>, both a little below the fraction they round (see
  \<open>oneThird_nearest\<close> and \<open>twoThirds_nearest\<close>). A draw is a double of \<open>[0, 1)\<close>, taken
  by its value; comparing two doubles is comparing their values.
\<close>

definition oneThird :: real where
  "oneThird = 6004799503160661 / 2 ^ 54"

definition twoThirds :: real where
  "twoThirds = 6004799503160661 / 2 ^ 53"

definition isSpeakingWithBuffer :: guard where
  "isSpeakingWithBuffer = (\<lambda>c ev r. case Math_random r of (x, r') \<Rightarrow> (x < oneThird, r'))"

definition isSpeakingWithLaughter :: guard where
  "isSpeakingWithLaughter = (\<lambda>c ev r. case Math_random r of (x, r') \<Rightarrow> (x < twoThirds, r'))"

subsection \<open>The inline guards and the assignments\<close>

text \<open>
  \<open>extractPersonFromDecision\<close> never throws (see \<open>extractPersonFromDecision_total\<close>),
  so the comparison with \<open>null\<close> always has a value.
\<close>

definition decisionHeard :: guard where
  "decisionHeard = pure_guard (\<lambda>c ev.
     (let utterance = event_output ev in extractPersonFromDecision utterance \<noteq> Inr None))"

text \<open>The bodies of the two inline guards of \<open>Manipulation.Listening\<close>.\<close>

definition isAffirmative :: "string \<Rightarrow> bool" where
  "isAffirmative out =
     (let utterance = trim (toLowerCase out) in
      utterance = ''yes'' \<or> utterance = ''yeah'' \<or>
      utterance = ''yep'' \<or> str_includes utterance ''yes'')"

definition isNegative :: "string \<Rightarrow> bool" where
  "isNegative out =
     (let utterance = trim (toLowerCase out) in
      utterance = ''no'' \<or> utterance = ''nope'' \<or> str_includes utterance ''no'')"

definition heardYes :: guard where
  "heardYes = pure_guard (\<lambda>c ev. isAffirmative (event_output ev))"

definition heardNo :: guard where
  "heardNo = pure_guard (\<lambda>c ev. isNegative (event_output ev))"

type_synonym action = "DMContext \<Rightarrow> event \<Rightarrow> DMContext"

definition no_action :: action where
  "no_action = (\<lambda>c ev. c)"

text \<open>\<open>extractedPerson || ""\<close>\<close>

definition orEmpty :: "jsError + string option \<Rightarrow> string" where
  "orEmpty r = (case r of Inr (Some person) \<Rightarrow> person | _ \<Rightarrow> [])"

definition assignDecision :: action where
  "assignDecision = (\<lambda>c ev.
     (let utterance = event_output ev;
          extracted = extractPersonFromDecision utterance
      in c\<lparr> lastResult := utterance,
            extractedPerson := orEmpty extracted,
            messages := messages c @ [\<lparr> role = User, content = utterance \<rparr>] \<rparr>))"

definition assignUtterance :: action where
  "assignUtterance = (\<lambda>c ev.
     (let utterance = event_output ev
      in c\<lparr> lastResult := utterance,
            messages := messages c @ [\<lparr> role = User, content = utterance \<rparr>] \<rparr>))"

definition assignCompletion :: action where
  "assignCompletion = (\<lambda>c ev.
     c\<lparr> messages := messages c @ [\<lparr> role = Assistant, content = event_output ev \<rparr>] \<rparr>)"

definition assignFallback :: action where
  "assignFallback = (\<lambda>c ev.
     c\<lparr> messages := messages c @
       [\<lparr> role = Assistant, content = ''I couldn't process that. Please say it again.'' \<rparr>] \<rparr>)"

definition assignFirstMessageDone :: action where
  "assignFirstMessageDone = (\<lambda>c ev. c\<lparr> isFirstMessage := False \<rparr>)"

definition assignLastResult :: action where
  "assignLastResult = (\<lambda>c ev. c\<lparr> lastResult := event_output ev \<rparr>)"

definition assignNotSure :: action where
  "assignNotSure = (\<lambda>c ev.
     c\<lparr> lastResult := event_output ev,
         messages := messages c @ [\<lparr> role = User, content = ''I am not sure.'' \<rparr>] \<rparr>)"

definition assignClosing :: action where
  "assignClosing = (\<lambda>c ev.
     c\<lparr> messages := messages c @
       [\<lparr> role = Assistant, content = ''Thank you for your participation.'' \<rparr>] \<rparr>)"

subsection \<open>The transitions\<close>

record transition =
  guard :: guard
  target :: node
  actions :: action

fun onDone :: "node \<Rightarrow> transition list" where
  "onDone SetVoice = [\<lparr> guard = no_guard, target = AttendUser, actions = no_action \<rparr>]"
| "onDone AttendUser = [\<lparr> guard = no_guard, target = Loop, actions = no_action \<rparr>]"
| "onDone Loop_Speaking =
     [\<lparr> guard = no_guard, target = Loop_Listening, actions = assignFirstMessageDone \<rparr>]"
| "onDone Loop_Listening =
     [\<lparr> guard = decisionHeard, target = Manipulation, actions = assignDecision \<rparr>,
      \<lparr> guard = no_guard, target = Loop_ProcessingResponse, actions = assignUtterance \<rparr>]"
| "onDone Loop_ProcessingResponse =
     [\<lparr> guard = no_guard, target = Loop_Speaking, actions = assignCompletion \<rparr>]"
| "onDone SpeakingWithPause_Condition1 =
     [\<lparr> guard = no_guard, target = Manipulation_Listening, actions = no_action \<rparr>]"
| "onDone SpeakingWithLaughter_Condition2 =
     [\<lparr> guard = no_guard, target = Manipulation_Listening, actions = no_action \<rparr>]"
| "onDone SpeakingWithBuffer_Condition3 =
     [\<lparr> guard = no_guard, target = Manipulation_Listening, actions = no_action \<rparr>]"
| "onDone Manipulation_Listening =
     [\<lparr> guard = heardYes, target = End, actions = assignLastResult \<rparr>,
      \<lparr> guard = heardNo, target = Loop_ProcessingResponse, actions = assignNotSure \<rparr>,
      \<lparr> guard = no_guard, target = Clarify, actions = assignLastResult \<rparr>]"
| "onDone Clarify =
     [\<lparr> guard = no_guard, target = Manipulation_Listening, actions = no_action \<rparr>]"
| "onDone End = [\<lparr> guard = no_guard, target = Done, actions = assignClosing \<rparr>]"
| "onDone _ = []"

fun onError :: "node \<Rightarrow> transition list" where
  "onError SetVoice = [\<lparr> guard = no_guard, target = Loop, actions = no_action \<rparr>]"
| "onError AttendUser = [\<lparr> guard = no_guard, target = Loop, actions = no_action \<rparr>]"
| "onError Loop_Speaking =
     [\<lparr> guard = no_guard, target = Loop_Listening, actions = no_action \<rparr>]"
| "onError Loop_Listening =
     [\<lparr> guard = no_guard, target = Loop_Speaking, actions = no_action \<rparr>]"
| "onError Loop_ProcessingResponse =
     [\<lparr> guard = no_guard, target = Loop_Speaking, actions = assignFallback \<rparr>]"
| "onError SpeakingWithPause_Condition1 =
     [\<lparr> guard = no_guard, target = Manipulation_Listening, actions = no_action \<rparr>]"
| "onError SpeakingWithLaughter_Condition2 =
     [\<lparr> guard = no_guard, target = Manipulation_Listening, actions = no_action \<rparr>]"
| "onError SpeakingWithBuffer_Condition3 =
     [\<lparr> guard = no_guard, target = Manipulation_Listening, actions = no_action \<rparr>]"
| "onError Manipulation_Listening =
     [\<lparr> guard = no_guard, target = DetermineTheManipulationState, actions = no_action \<rparr>]"
| "onError Clarify =
     [\<lparr> guard = no_guard, target = Manipulation_Listening, actions = no_action \<rparr>]"
| "onError End = [\<lparr> guard = no_guard, target = Done, actions = no_action \<rparr>]"
| "onError _ = []"

fun always :: "node \<Rightarrow> transition list" where
  "always DetermineTheManipulationState =
     [\<lparr> guard = isSpeakingWithBuffer, target = SpeakingWithBuffer_Condition3, actions = no_action \<rparr>,
      \<lparr> guard = isSpeakingWithLaughter, target = SpeakingWithLaughter_Condition2, actions = no_action \<rparr>,
      \<lparr> guard = no_guard, target = SpeakingWithPause_Condition1, actions = no_action \<rparr>]"
| "always _ = []"

text \<open>Entering a compound state enters its \<open>initial\<close> child.\<close>

fun enter :: "node \<Rightarrow> node" where
  "enter SetupFurhat = SetVoice"
| "enter Loop = Loop_Speaking"
| "enter Manipulation = DetermineTheManipulationState"
| "enter n = n"

text \<open>What a state invokes, with the input computed from the context.\<close>

fun invoke :: "node \<Rightarrow> DMContext \<Rightarrow> (jsError + call) option" where
  "invoke SetVoice c = Some (Inr (FhSetVoice ''en-US-EchoMultilingualNeural''))"
| "invoke AttendUser c = Some (Inr FhAttend)"
| "invoke Loop_Speaking c =
     (case rev (messages c) of
        [] \<Rightarrow> Some (Inl TypeError)
      | lastMessage # _ \<Rightarrow> Some (Inr (FhSpeak (content lastMessage) (isFirstMessage c))))"
| "invoke Loop_Listening c = Some (Inr FhListen)"
| "invoke Loop_ProcessingResponse c = Some (Inr (ChatCompletion (messages c)))"
| "invoke SpeakingWithPause_Condition1 c =
     Some (Inr (FhSpeak (''........   The '' @ extractedPerson c @ ''?'') False))"
| "invoke SpeakingWithLaughter_Condition2 c =
     Some (Inr (FhSpeak (''Hahahaha! The '' @ extractedPerson c @ ''?'') False))"
| "invoke SpeakingWithBuffer_Condition3 c =
     Some (Inr (FhSpeak (''Hmmmmm, the '' @ extractedPerson c @ ''?'') False))"
| "invoke Manipulation_Listening c = Some (Inr FhListen)"
| "invoke Clarify c = Some (Inr (FhSpeak ''I didn't catch that. Did you say yes or no?'' False))"
| "invoke End c = Some (Inr (FhSpeak ''Thank you for your participation.'' False))"
| "invoke _ c = None"

subsection \<open>Running the machine\<close>

text \<open>
  The guards of a list of transitions are evaluated in the order of the list, and the
  first transition whose guard holds is taken; a guard further down is not evaluated.
\<close>

fun first_enabled :: "transition list \<Rightarrow> DMContext \<Rightarrow> event \<Rightarrow> random \<Rightarrow> transition option \<times> random" where
  "first_enabled [] c ev r = (None, r)"
| "first_enabled (t # ts) c ev r =
     (case guard t c ev r of
        (True, r') \<Rightarrow> (Some t, r')
      | (False, r') \<Rightarrow> first_enabled ts c ev r')"

record machine =
  current :: node
  ctx :: DMContext
  rnd :: random

text \<open>
  Taking a transition runs its assignments and enters its target. The eventless
  transitions of the state entered are then taken at once; no target of an eventless
  transition of this machine has eventless transitions of its own, so one round settles.
\<close>

definition fire :: "transition \<Rightarrow> machine \<Rightarrow> event \<Rightarrow> machine" where
  "fire t mc ev = mc\<lparr> current := enter (target t), ctx := actions t (ctx mc) ev \<rparr>"

definition settle :: "machine \<Rightarrow> event \<Rightarrow> machine" where
  "settle mc ev =
     (case first_enabled (always (current mc)) (ctx mc) ev (rnd mc) of
        (None, r') \<Rightarrow> mc\<lparr> rnd := r' \<rparr>
      | (Some t, r') \<Rightarrow> fire t (mc\<lparr> rnd := r' \<rparr>) ev)"

fun candidates :: "node \<Rightarrow> event \<Rightarrow> transition list" where
  "candidates n (OnDone out) = onDone n"
| "candidates n OnError = onError n"
| "candidates n Init = []"

definition step :: "machine \<Rightarrow> event \<Rightarrow> machine" where
  "step mc ev =
     (case first_enabled (candidates (current mc) ev) (ctx mc) ev (rnd mc) of
        (None, r') \<Rightarrow> mc\<lparr> rnd := r' \<rparr>
      | (Some t, r') \<Rightarrow> settle (fire t (mc\<lparr> rnd := r' \<rparr>) ev) ev)"

text \<open>\<open>createActor(dmMachine).start()\<close>\<close>

definition start :: "random \<Rightarrow> machine" where
  "start r = settle \<lparr> current = enter SetupFurhat, ctx = initialContext, rnd = r \<rparr> Init"

fun run :: "machine \<Rightarrow> event list \<Rightarrow> machine" where
  "run mc [] = mc"
| "run mc (ev # evs) = run (step mc ev) evs"

inductive reachable :: "machine \<Rightarrow> bool" where
  reachable_start: "reachable (start r)"
| reachable_step: "reachable mc \<Longrightarrow> reachable (step mc ev)"

section \<open>Notions used to state the properties\<close>

text \<open>
  The pattern of the Decision Extractor as the specification words it: the normalised
  utterance reads, from index \<open>i\<close>, \<open>i\<close>, white space, \<open>want\<close>, white space, optionally
  \<open>the\<close> and white space, then the subject, which occupies the indices from \<open>a\<close> up to
  \<open>b\<close>, then white space, \<open>to\<close>, white space, \<open>jump\<close>; a word boundary stands before
  \<open>i\<close> and after \<open>jump\<close>, and the subject is not empty and has no line terminator.
\<close>

definition spaces :: "string \<Rightarrow> bool" where
  "spaces ws \<longleftrightarrow> ws \<noteq> [] \<and> (\<forall>ch \<in> set ws. isWhiteSpace ch)"

definition spec_match :: "string \<Rightarrow> nat \<Rightarrow> nat \<Rightarrow> nat \<Rightarrow> bool" where
  "spec_match s i a b \<longleftrightarrow>
     (\<exists>pre ws1 ws2 tp subj ws3 ws4 post.
        s = pre @ ''i'' @ ws1 @ ''want'' @ ws2 @ tp @ subj @ ws3 @ ''to'' @ ws4 @ ''jump'' @ post
      \<and> (pre = [] \<or> \<not> isWordChar (last pre))
      \<and> (post = [] \<or> \<not> isWordChar (hd post))
      \<and> spaces ws1 \<and> spaces ws2 \<and> spaces ws3 \<and> spaces ws4
      \<and> (tp = [] \<or> (\<exists>ws. tp = ''the'' @ ws \<and> spaces ws))
      \<and> subj \<noteq> [] \<and> (\<forall>ch \<in> set subj. \<not> isLineTerminator ch)
      \<and> i = length pre
      \<and> a = length (pre @ ''i'' @ ws1 @ ''want'' @ ws2 @ tp)
      \<and> b = a + length subj)"

text \<open>
  The match that is used: the first occurrence; there, the optional \<open>the\<close> and the white
  space before the subject taken as far as a match allows, so that the subject starts as
  late as possible; and then the shortest subject.
\<close>

definition spec_first_match :: "string \<Rightarrow> nat \<Rightarrow> nat \<Rightarrow> nat \<Rightarrow> bool" where
  "spec_first_match s i a b \<longleftrightarrow>
     spec_match s i a b \<and>
     (\<forall>i' a' b'. spec_match s i' a' b' \<longrightarrow>
        i \<le> i' \<and> (i' = i \<longrightarrow> a' \<le> a \<and> (a' = a \<longrightarrow> b \<le> b')))"

text \<open>
  The regular expression in four pieces, \<^verbatim>\<open>\bi\s+want\<close>, \<^verbatim>\<open>\s+(?:the\s+)?\<close>,
  \<^verbatim>\<open>(.+?)\<close> and \<^verbatim>\<open>\s+to\s+jump\b\<close>, and what it is for the matcher to have a
  way through all four from a start state, with the subject at the indices \<open>a\<close> to \<open>b\<close>.
\<close>

definition rx_head :: rx where
  "rx_head = Seq WordBoundary (Seq (Lit ''i'') (Seq (Plus Greedy Space) (Lit ''want'')))"

definition rx_gap :: rx where
  "rx_gap = Seq (Plus Greedy Space) (Opt (Seq (Lit ''the'') (Plus Greedy Space)))"

definition rx_subject :: rx where
  "rx_subject = Capture (Plus Lazy Dot)"

definition rx_tail :: rx where
  "rx_tail = Seq (Plus Greedy Space) (Seq (Lit ''to'')
      (Seq (Plus Greedy Space) (Seq (Lit ''jump'') WordBoundary)))"

definition candidate :: "mstate \<Rightarrow> nat \<Rightarrow> nat \<Rightarrow> bool" where
  "candidate st0 a b \<longleftrightarrow>
     (\<exists>h st1 st2. h \<in> set (m rx_head st0) \<and> st1 \<in> set (m rx_gap h)
        \<and> st2 \<in> set (m rx_subject st1) \<and> m rx_tail st2 \<noteq> []
        \<and> a = length (fst st1) \<and> b = length (fst st2))"

text \<open>
  The confirmation recogniser as the specification words it: the affirmative set is
  checked first, then the negative set.
\<close>

datatype verdict = Affirmative | Negative | Ambiguous

definition spec_classify :: "string \<Rightarrow> verdict" where
  "spec_classify u =
     (let n = trim (toLowerCase u) in
      if n = ''yes'' \<or> n = ''yeah'' \<or> n = ''positive'' \<or> n = ''yep'' \<or> sublist ''yes'' n
      then Affirmative
      else if n = ''no'' \<or> n = ''nope'' \<or> sublist ''no'' n then Negative
      else Ambiguous)"

text \<open>
  \<open>spoke mc evs\<close>: while the events \<open>evs\<close> are fed to \<open>mc\<close>, some voice call of
  \<open>Loop.Speaking\<close> completes successfully.
\<close>

fun spoke :: "machine \<Rightarrow> event list \<Rightarrow> bool" where
  "spoke mc [] = False"
| "spoke mc (ev # evs) =
     ((current mc = Loop_Speaking \<and> (case ev of OnDone out \<Rightarrow> True | _ \<Rightarrow> False)) \<or> spoke (step mc ev) evs)"

text \<open>
  \<open>affirmed mc evs\<close>: while the events \<open>evs\<close> are fed to \<open>mc\<close>, some utterance
  heard in \<open>Manipulation.Listening\<close> passes the affirmative guard.
\<close>

fun affirmed :: "machine \<Rightarrow> event list \<Rightarrow> bool" where
  "affirmed mc [] = False"
| "affirmed mc (ev # evs) =
     ((current mc = Manipulation_Listening \<and>
       (case ev of OnDone out \<Rightarrow> isAffirmative out | _ \<Rightarrow> False))
      \<or> affirmed (step mc ev) evs)"

text \<open>The states of \<open>Manipulation\<close> in which the machine rests.\<close>

definition in_manipulation :: "node \<Rightarrow> bool" where
  "in_manipulation n = (n = SpeakingWithPause_Condition1 \<or> n = SpeakingWithLaughter_Condition2
     \<or> n = SpeakingWithBuffer_Condition3 \<or> n = Manipulation_Listening \<or> n = Clarify)"

text \<open>
  \<open>stays_in_manipulation mc evs\<close>: each event of \<open>evs\<close> arrives while the machine is in
  a state of \<open>Manipulation\<close>.
\<close>

fun stays_in_manipulation :: "machine \<Rightarrow> event list \<Rightarrow> bool" where
  "stays_in_manipulation mc [] = True"
| "stays_in_manipulation mc (ev # evs) =
     (in_manipulation (current mc) \<and> stays_in_manipulation (step mc ev) evs)"





text \<open>Some sessions, as the events the invoked actors send back.\<close>

definition session_to_Condition3 :: "event list" where
  "session_to_Condition3 =
     [OnDone [], OnDone [], OnDone [], OnDone ''I want the Pilot to jump'']"

definition session_to_Manipulation_Listening :: "event list" where
  "session_to_Manipulation_Listening = session_to_Condition3 @ [OnDone []]"

definition session_to_End :: "event list" where
  "session_to_End = session_to_Manipulation_Listening @ [OnDone ''yes'']"

definition session_to_ProcessingResponse :: "event list" where
  "session_to_ProcessingResponse = [OnDone [], OnDone [], OnDone [], OnDone ''Hello'']"

section \<open>The matcher on the pattern of the Decision Extractor\<close>

lemma concat_map_concat_map:
  "concat (map g (concat (map f xs))) = concat (map (\<lambda>x. concat (map g (f x))) xs)"
  by (induction xs) simp_all

lemma m_Seq_fun: "m (Seq r1 r2) = (\<lambda>st. concat (map (m r2) (m r1 st)))"
  by (rule ext) simp

lemma m_Seq_assoc: "m (Seq (Seq r1 r2) r3) = m (Seq r1 (Seq r2 r3))"
  by (simp add: m_Seq_fun concat_map_concat_map)

lemma wantToJump_pieces:
  "m wantToJump = m (Seq rx_head (Seq rx_gap (Seq rx_subject rx_tail)))"
  unfolding wantToJump_def rx_head_def rx_gap_def rx_subject_def rx_tail_def
  by (simp add: m_Seq_fun concat_map_concat_map)

lemma in_m_Lit:
  "y \<in> set (m (Lit l) (sn, r, c)) \<longleftrightarrow> (\<exists>r'. r = l @ r' \<and> y = (sn @ l, r', c))"
  by (auto simp: advance_def prefix_def)

lemma takeWhile_all: "\<forall>x \<in> set w. P x \<Longrightarrow> takeWhile P (w @ r) = w @ takeWhile P r"
  by (induction w) simp_all

lemma in_m_Plus:
  "y \<in> set (m (Plus g cl) (sn, r, c)) \<longleftrightarrow>
     (\<exists>w r'. r = w @ r' \<and> w \<noteq> [] \<and> (\<forall>ch \<in> set w. inCls cl ch) \<and> y = (sn @ w, r', c))"
proof
  assume "y \<in> set (m (Plus g cl) (sn, r, c))"
  then obtain k where k: "1 \<le> k" "k \<le> length (takeWhile (inCls cl) r)"
    and y: "y = (sn @ take k r, drop k r, c)"
    by (cases g) (auto simp: advance_def Let_def)
  have "take k r = take k (takeWhile (inCls cl) r)"
    using k(2) by (metis append_eq_conv_conj takeWhile_dropWhile_id take_append min.absorb2 take_take
        diff_is_0_eq take_0 append_Nil2 min.commute)
  then have "\<forall>ch \<in> set (take k r). inCls cl ch"
    by (metis in_set_takeD set_takeWhileD)
  moreover have "take k r \<noteq> []" using k length_takeWhile_le[of "inCls cl" r]
    by (cases r) auto
  ultimately show "\<exists>w r'. r = w @ r' \<and> w \<noteq> [] \<and> (\<forall>ch \<in> set w. inCls cl ch) \<and> y = (sn @ w, r', c)"
    using y by (intro exI[of _ "take k r"] exI[of _ "drop k r"]) simp
next
  assume "\<exists>w r'. r = w @ r' \<and> w \<noteq> [] \<and> (\<forall>ch \<in> set w. inCls cl ch) \<and> y = (sn @ w, r', c)"
  then obtain w r' where w: "r = w @ r'" "w \<noteq> []" "\<forall>ch \<in> set w. inCls cl ch"
    and y: "y = (sn @ w, r', c)" by blast
  have "length w \<le> length (takeWhile (inCls cl) r)"
    using w by (simp add: takeWhile_all)
  moreover have "1 \<le> length w" using w(2) by (cases w) auto
  moreover have "advance (sn, r, c) (length w) = y"
    using w y by (simp add: advance_def)
  ultimately show "y \<in> set (m (Plus g cl) (sn, r, c))"
    by (cases g) (force simp: Let_def image_iff)+
qed

lemma in_m_Seq:
  "y \<in> set (m (Seq r1 r2) st) \<longleftrightarrow>
     (\<exists>sn r c. (sn, r, c) \<in> set (m r1 st) \<and> y \<in> set (m r2 (sn, r, c)))"
  by auto

lemma in_m_Opt: "y \<in> set (m (Opt r) st) \<longleftrightarrow> y \<in> set (m r st) \<or> y = st"
  by auto

lemma in_m_Capture:
  "y \<in> set (m (Capture r) (sn, rest, c)) \<longleftrightarrow>
     (\<exists>sn' rest' c'. (sn', rest', c') \<in> set (m r (sn, rest, c))
        \<and> y = (sn', rest', Some (length sn, length sn')))"
  by (auto simp: image_iff) force

lemma in_m_WordBoundary:
  "y \<in> set (m WordBoundary (sn, r, c)) \<longleftrightarrow>
     y = (sn, r, c) \<and> ((sn \<noteq> [] \<and> isWordChar (last sn)) \<noteq> (r \<noteq> [] \<and> isWordChar (hd r)))"
  by (auto simp: Let_def)

lemma char_facts:
  "isWordChar CHR ''i''" "isWordChar CHR ''p''"
  "\<not> isWhiteSpace CHR ''w''" "\<not> isWhiteSpace CHR ''t''" "\<not> isWhiteSpace CHR ''j''"
  by (simp_all add: isWordChar_def isWhiteSpace_def code_def)

lemmas in_m = in_m_Lit in_m_Plus in_m_Seq in_m_Opt in_m_Capture in_m_WordBoundary

lemma in_rx_head:
  "y \<in> set (m rx_head (sn, r, c)) \<longleftrightarrow>
     (sn = [] \<or> \<not> isWordChar (last sn)) \<and>
     (\<exists>ws r'. r = ''i'' @ ws @ ''want'' @ r' \<and> spaces ws \<and> y = (sn @ ''i'' @ ws @ ''want'', r', c))"
  unfolding rx_head_def
  by (auto simp: in_m spaces_def char_facts simp del: m.simps)

lemma in_Plus_then:
  "y \<in> set (m (Seq (Plus g cl) x) (sn, r, c)) \<longleftrightarrow>
     (\<exists>w r'. r = w @ r' \<and> w \<noteq> [] \<and> (\<forall>ch \<in> set w. inCls cl ch) \<and> y \<in> set (m x (sn @ w, r', c)))"
  by (auto simp: in_m simp del: m.simps)

lemma in_Lit_then:
  "y \<in> set (m (Seq (Lit l) x) (sn, r, c)) \<longleftrightarrow> (\<exists>r'. r = l @ r' \<and> y \<in> set (m x (sn @ l, r', c)))"
  by (auto simp: in_m simp del: m.simps)

lemma in_rx_gap:
  "y \<in> set (m rx_gap (sn, r, c)) \<longleftrightarrow>
     (\<exists>ws tp r'. r = ws @ tp @ r' \<and> spaces ws
        \<and> (tp = [] \<or> (\<exists>ws'. tp = ''the'' @ ws' \<and> spaces ws'))
        \<and> y = (sn @ ws @ tp, r', c))"
  (is "?L \<longleftrightarrow> ?R")
proof
  assume ?L
  then obtain ws r1 where ws: "r = ws @ r1" "spaces ws"
    and y: "y \<in> set (m (Opt (Seq (Lit ''the'') (Plus Greedy Space))) (sn @ ws, r1, c))"
    unfolding rx_gap_def in_Plus_then spaces_def by auto
  from y consider (skip) "y = (sn @ ws, r1, c)"
    | (the) "y \<in> set (m (Seq (Lit ''the'') (Plus Greedy Space)) (sn @ ws, r1, c))"
    unfolding in_m_Opt by blast
  then show ?R
  proof cases
    case skip
    with ws show ?thesis
      by (intro exI[of _ ws] exI[of _ "[]"] exI[of _ r1]) simp
  next
    case the
    then obtain ws' r2 where "r1 = ''the'' @ ws' @ r2" "spaces ws'" "y = ((sn @ ws) @ ''the'' @ ws', r2, c)"
      unfolding in_Lit_then in_m_Plus spaces_def by auto
    with ws show ?thesis
      by (intro exI[of _ ws] exI[of _ "''the'' @ ws'"] exI[of _ r2]) simp
  qed
next
  assume ?R
  then obtain ws tp r' where ws: "r = ws @ tp @ r'" "spaces ws"
    and tp: "tp = [] \<or> (\<exists>ws'. tp = ''the'' @ ws' \<and> spaces ws')"
    and y: "y = (sn @ ws @ tp, r', c)" by blast
  have "y \<in> set (m (Opt (Seq (Lit ''the'') (Plus Greedy Space))) (sn @ ws, tp @ r', c))"
  proof (cases "tp = []")
    case True
    with y show ?thesis unfolding in_m_Opt by simp
  next
    case False
    with tp obtain ws' where "tp = ''the'' @ ws'" "spaces ws'" by blast
    with y have "y \<in> set (m (Seq (Lit ''the'') (Plus Greedy Space)) (sn @ ws, tp @ r', c))"
      unfolding in_Lit_then in_m_Plus spaces_def by auto
    then show ?thesis unfolding in_m_Opt by blast
  qed
  with ws show ?L
    unfolding rx_gap_def in_Plus_then spaces_def by auto
qed

lemma in_rx_subject:
  "y \<in> set (m rx_subject (sn, r, c)) \<longleftrightarrow>
     (\<exists>w r'. r = w @ r' \<and> w \<noteq> [] \<and> (\<forall>ch \<in> set w. \<not> isLineTerminator ch)
        \<and> y = (sn @ w, r', Some (length sn, length sn + length w)))"
  unfolding rx_subject_def
  by (auto simp: in_m simp del: m.simps)

lemma in_rx_tail:
  "y \<in> set (m rx_tail (sn, r, c)) \<longleftrightarrow>
     (\<exists>ws1 ws2 r'. r = ws1 @ ''to'' @ ws2 @ ''jump'' @ r' \<and> spaces ws1 \<and> spaces ws2
        \<and> (r' = [] \<or> \<not> isWordChar (hd r'))
        \<and> y = (sn @ ws1 @ ''to'' @ ws2 @ ''jump'', r', c))"
  (is "?L \<longleftrightarrow> ?R")
proof
  assume ?L
  then obtain ws1 r1 where 1: "r = ws1 @ r1" "spaces ws1"
    and y1: "y \<in> set (m (Seq (Lit ''to'') (Seq (Plus Greedy Space) (Seq (Lit ''jump'') WordBoundary)))
               (sn @ ws1, r1, c))"
    unfolding rx_tail_def in_Plus_then spaces_def by auto
  from y1 obtain r2 where 2: "r1 = ''to'' @ r2"
    and y2: "y \<in> set (m (Seq (Plus Greedy Space) (Seq (Lit ''jump'') WordBoundary))
               ((sn @ ws1) @ ''to'', r2, c))"
    unfolding in_Lit_then by auto
  from y2 obtain ws2 r3 where 3: "r2 = ws2 @ r3" "spaces ws2"
    and y3: "y \<in> set (m (Seq (Lit ''jump'') WordBoundary) (((sn @ ws1) @ ''to'') @ ws2, r3, c))"
    unfolding in_Plus_then spaces_def by auto
  from y3 obtain r4 where 4: "r3 = ''jump'' @ r4"
    and y4: "y \<in> set (m WordBoundary ((((sn @ ws1) @ ''to'') @ ws2) @ ''jump'', r4, c))"
    unfolding in_Lit_then by auto
  from y4 have "y = (sn @ ws1 @ ''to'' @ ws2 @ ''jump'', r4, c)" and "r4 = [] \<or> \<not> isWordChar (hd r4)"
    unfolding in_m_WordBoundary by (auto simp: char_facts)
  with 1 2 3 4 show ?R
    by (intro exI[of _ ws1] exI[of _ ws2] exI[of _ r4]) simp
next
  assume ?R
  then obtain ws1 ws2 r' where r: "r = ws1 @ ''to'' @ ws2 @ ''jump'' @ r'" and s: "spaces ws1" "spaces ws2"
    and b: "r' = [] \<or> \<not> isWordChar (hd r')"
    and y: "y = (sn @ ws1 @ ''to'' @ ws2 @ ''jump'', r', c)" by blast
  have "y \<in> set (m WordBoundary ((((sn @ ws1) @ ''to'') @ ws2) @ ''jump'', r', c))"
    unfolding in_m_WordBoundary using b y by (auto simp: char_facts)
  then have "y \<in> set (m (Seq (Lit ''jump'') WordBoundary) (((sn @ ws1) @ ''to'') @ ws2, ''jump'' @ r', c))"
    unfolding in_Lit_then by blast
  then have "y \<in> set (m (Seq (Plus Greedy Space) (Seq (Lit ''jump'') WordBoundary))
               ((sn @ ws1) @ ''to'', ws2 @ ''jump'' @ r', c))"
    unfolding in_Plus_then using s(2) by (auto simp: spaces_def simp del: m.simps)
  then have "y \<in> set (m (Seq (Lit ''to'') (Seq (Plus Greedy Space) (Seq (Lit ''jump'') WordBoundary)))
               (sn @ ws1, ''to'' @ ws2 @ ''jump'' @ r', c))"
    unfolding in_Lit_then by blast
  then show ?L
    unfolding rx_tail_def in_Plus_then using s(1) r by (auto simp: spaces_def simp del: m.simps)
qed

lemma concat_map_Cons:
  "concat (map f xs) = y # ys \<Longrightarrow>
     \<exists>ps x zs ys'. xs = ps @ x # zs \<and> (\<forall>p \<in> set ps. f p = []) \<and> f x = y # ys'"
proof (induction xs)
  case Nil
  then show ?case by simp
next
  case (Cons x xs)
  show ?case
  proof (cases "f x")
    case Nil
    with Cons.prems have "concat (map f xs) = y # ys" by simp
    from Cons.IH[OF this] obtain ps x' zs ys' where
      "xs = ps @ x' # zs" "\<forall>p \<in> set ps. f p = []" "f x' = y # ys'" by blast
    with Nil show ?thesis
      by (intro exI[of _ "x # ps"] exI[of _ x'] exI[of _ zs] exI[of _ ys']) simp
  next
    case (Cons z zs')
    with Cons.prems have "f x = y # zs'" by simp
    then show ?thesis
      by (intro exI[of _ "[]"] exI[of _ x] exI[of _ xs] exI[of _ zs']) simp
  qed
qed

lemma sorted_wrt_concat_map:
  "(\<And>x. x \<in> set xs \<Longrightarrow> sorted_wrt R (f x)) \<Longrightarrow>
   sorted_wrt (\<lambda>x x'. \<forall>u \<in> set (f x). \<forall>v \<in> set (f x'). R u v) xs \<Longrightarrow>
   sorted_wrt R (concat (map f xs))"
  by (induction xs) (auto simp: sorted_wrt_append)

lemma takeWhile_stop:
  "\<forall>ch \<in> set ws. P ch \<Longrightarrow> l \<noteq> [] \<Longrightarrow> \<not> P (hd l) \<Longrightarrow> takeWhile P (ws @ l @ r) = ws"
  by (cases l) (simp_all add: takeWhile_all)

lemma rx_head_unique:
  assumes "x \<in> set (m rx_head st)" and "x' \<in> set (m rx_head st)"
  shows "x = x'"
proof -
  obtain sn r c where st: "st = (sn, r, c)" by (cases st) auto
  from assms(1) obtain ws r1 where 1: "r = ''i'' @ ws @ ''want'' @ r1" "spaces ws"
    "x = (sn @ ''i'' @ ws @ ''want'', r1, c)" unfolding st in_rx_head by blast
  from assms(2) obtain ws' r1' where 2: "r = ''i'' @ ws' @ ''want'' @ r1'" "spaces ws'"
    "x' = (sn @ ''i'' @ ws' @ ''want'', r1', c)" unfolding st in_rx_head by blast
  have "takeWhile isWhiteSpace (ws @ ''want'' @ r1) = ws"
    using 1(2) by (intro takeWhile_stop) (simp_all add: spaces_def char_facts)
  moreover have "takeWhile isWhiteSpace (ws' @ ''want'' @ r1') = ws'"
    using 2(2) by (intro takeWhile_stop) (simp_all add: spaces_def char_facts)
  moreover have "ws @ ''want'' @ r1 = ws' @ ''want'' @ r1'" using 1(1) 2(1) by simp
  ultimately have "ws = ws'" by simp
  with 1 2 show ?thesis by simp
qed

lemma length_fst_advance:
  "k \<le> length r \<Longrightarrow> length (fst (advance (sn, r, c) k)) = length sn + k"
  by (simp add: advance_def)

lemma Plus_sorted:
  shows "sorted_wrt (\<lambda>x y. length (fst x) > length (fst y)) (m (Plus Greedy cl) st)"
    and "sorted_wrt (\<lambda>x y. length (fst x) < length (fst y)) (m (Plus Lazy cl) st)"
proof -
  obtain sn r c where st: "st = (sn, r, c)" by (cases st) auto
  let ?n = "length (takeWhile (inCls cl) r)"
  have le: "?n \<le> length r" by (rule length_takeWhile_le)
  have "sorted_wrt (\<lambda>k k'. length (fst (advance st k)) < length (fst (advance st k'))) [1..<Suc ?n]"
    by (rule sorted_wrt_mono_rel[OF _ sorted_wrt_upt]) (use le in \<open>auto simp: st length_fst_advance\<close>)
  then show "sorted_wrt (\<lambda>x y. length (fst x) < length (fst y)) (m (Plus Lazy cl) st)"
    by (simp add: st sorted_wrt_map del: upt_Suc)
  have "sorted_wrt (\<lambda>k' k. length (fst (advance st k)) > length (fst (advance st k'))) [1..<Suc ?n]"
    by (rule sorted_wrt_mono_rel[OF _ sorted_wrt_upt]) (use le in \<open>auto simp: st length_fst_advance\<close>)
  then show "sorted_wrt (\<lambda>x y. length (fst x) > length (fst y)) (m (Plus Greedy cl) st)"
    by (simp add: st sorted_wrt_map sorted_wrt_rev del: upt_Suc)
qed

lemma rx_subject_sorted:
  "sorted_wrt (\<lambda>x y. length (fst x) < length (fst y)) (m rx_subject st)"
  using Plus_sorted(2)[of Dot st]
  by (simp add: rx_subject_def sorted_wrt_map)

lemma inCls_Space: "inCls Space = isWhiteSpace"
  by (rule ext) simp

lemma the_then_spaces_longer:
  "u \<in> set (m (Seq (Lit ''the'') (Plus Greedy Space)) st) \<Longrightarrow> length (fst u) > length (fst st)"
  by (cases st) (auto simp: in_Lit_then in_m_Plus simp del: m.simps)

lemma in_opt_the:
  "u \<in> set (m (Opt (Seq (Lit ''the'') (Plus Greedy Space))) (sn, r, c)) \<longleftrightarrow>
     u = (sn, r, c) \<or> (\<exists>w r'. r = ''the'' @ w @ r' \<and> spaces w \<and> u = (sn @ ''the'' @ w, r', c))"
  unfolding in_m_Opt in_Lit_then in_m_Plus spaces_def by auto

lemma opt_the_sorted:
  "sorted_wrt (\<lambda>x y. length (fst x) > length (fst y))
     (m (Opt (Seq (Lit ''the'') (Plus Greedy Space))) st)"
proof -
  obtain sn r c where st: "st = (sn, r, c)" by (cases st) auto
  have 1: "sorted_wrt (\<lambda>x y. length (fst x) > length (fst y))
             (m (Seq (Lit ''the'') (Plus Greedy Space)) st)"
    using Plus_sorted(1)[of Space "advance st (length ''the'')"]
    by (simp del: m.simps(2))
  have 2: "\<forall>u \<in> set (m (Seq (Lit ''the'') (Plus Greedy Space)) st). length (fst u) > length (fst st)"
    using the_then_spaces_longer by blast
  show ?thesis
    using 1 2 by (simp add: sorted_wrt_append del: m.simps(2) m.simps(6))
qed

lemma spaces_prefix_no_the:
  assumes "k < length (takeWhile isWhiteSpace r)"
  shows "\<not> prefix ''the'' (drop k r)"
proof
  assume p: "prefix ''the'' (drop k r)"
  have kr: "k < length r" using assms length_takeWhile_le[of isWhiteSpace r] by simp
  from p have "hd (drop k r) = CHR ''t''" by (auto simp: prefix_def)
  then have "r ! k = CHR ''t''" using kr by (simp add: hd_drop_conv_nth)
  moreover have "isWhiteSpace (r ! k)"
    using assms by (metis nth_mem set_takeWhileD takeWhile_nth)
  ultimately show False by (simp add: char_facts)
qed

lemma rx_gap_sorted:
  "sorted_wrt (\<lambda>x y. length (fst x) > length (fst y)) (m rx_gap st)"
proof -
  obtain sn r c where st: "st = (sn, r, c)" by (cases st) auto
  let ?n = "length (takeWhile isWhiteSpace r)"
  let ?opt = "Opt (Seq (Lit ''the'') (Plus Greedy Space))"
  let ?f = "\<lambda>k. m ?opt (advance st k)"
  let ?R = "\<lambda>x y :: mstate. length (fst x) > length (fst y)"
  have le: "?n \<le> length r" by (rule length_takeWhile_le)
  have eq: "m rx_gap st = concat (map ?f (rev [1..<Suc ?n]))"
    by (simp add: rx_gap_def st comp_def rev_map inCls_Space del: m.simps(3) upt_Suc)
  have cross: "\<forall>u \<in> set (?f k). \<forall>v \<in> set (?f k'). ?R u v"
    if "k' < k" "k \<le> ?n" for k k'
  proof (intro ballI)
    fix u v assume u: "u \<in> set (?f k)" and v: "v \<in> set (?f k')"
    have "k' < ?n" using that by simp
    from spaces_prefix_no_the[OF this] have "v = advance st k'"
      using v unfolding st advance_def by (auto simp: in_opt_the prefix_def simp del: m.simps)
    then have lv: "length (fst v) = length sn + k'"
      using that le by (simp add: st length_fst_advance)
    have "length (fst u) \<ge> length (fst (advance st k))"
      using u unfolding st advance_def by (auto simp: in_opt_the simp del: m.simps)
    then have "length (fst u) \<ge> length sn + k"
      using that le by (simp add: st length_fst_advance)
    with lv that show "?R u v" by simp
  qed
  have "sorted_wrt (\<lambda>k' k. \<forall>u \<in> set (?f k). \<forall>v \<in> set (?f k'). ?R u v) [1..<Suc ?n]"
  proof (rule sorted_wrt_mono_rel[OF _ sorted_wrt_upt])
    fix k' k assume "k \<in> set [1..<Suc ?n]" and lt: "k' < k"
    then have "k \<le> ?n" by (simp del: upt_Suc)
    from cross[OF lt this] show "\<forall>u \<in> set (?f k). \<forall>v \<in> set (?f k'). ?R u v" .
  qed
  then have "sorted_wrt (\<lambda>k k'. \<forall>u \<in> set (?f k). \<forall>v \<in> set (?f k'). ?R u v) (rev [1..<Suc ?n])"
    by (simp only: sorted_wrt_rev)
  then show ?thesis
    unfolding eq by (intro sorted_wrt_concat_map opt_the_sorted)
qed

lemma rx_tail_cap: "y \<in> set (m rx_tail st) \<Longrightarrow> snd (snd y) = snd (snd st)"
  by (cases st) (auto simp: in_rx_tail simp del: m.simps)

lemma rx_subject_cap:
  "st2 \<in> set (m rx_subject st1) \<Longrightarrow> snd (snd st2) = Some (length (fst st1), length (fst st2))"
  by (cases st1) (auto simp: in_rx_subject simp del: m.simps)

lemma candidate_spec_match:
  "candidate (pre, r0, None) a b \<longleftrightarrow> spec_match (pre @ r0) (length pre) a b"
  (is "?L \<longleftrightarrow> ?R")
proof
  assume ?L
  then obtain h st1 st2 where h: "h \<in> set (m rx_head (pre, r0, None))"
    and st1: "st1 \<in> set (m rx_gap h)" and st2: "st2 \<in> set (m rx_subject st1)"
    and t: "m rx_tail st2 \<noteq> []" and ab: "a = length (fst st1)" "b = length (fst st2)"
    unfolding candidate_def by blast
  from h obtain ws1 r1 where bd: "pre = [] \<or> \<not> isWordChar (last pre)"
    and 1: "r0 = ''i'' @ ws1 @ ''want'' @ r1" "spaces ws1" "h = (pre @ ''i'' @ ws1 @ ''want'', r1, None)"
    unfolding in_rx_head by blast
  from st1 obtain ws2 tp r2 where 2: "r1 = ws2 @ tp @ r2" "spaces ws2"
    "tp = [] \<or> (\<exists>ws'. tp = ''the'' @ ws' \<and> spaces ws')"
    "st1 = ((pre @ ''i'' @ ws1 @ ''want'') @ ws2 @ tp, r2, None)"
    unfolding 1(3) in_rx_gap by blast
  from st2 obtain subj r3 where 3: "r2 = subj @ r3" "subj \<noteq> []" "\<forall>ch \<in> set subj. \<not> isLineTerminator ch"
    "fst st2 = fst st1 @ subj" "fst (snd st2) = r3"
    unfolding 2(4) in_rx_subject by auto
  from t obtain y where "y \<in> set (m rx_tail st2)" by (cases "m rx_tail st2") auto
  then have "y \<in> set (m rx_tail (fst st2, r3, snd (snd st2)))" using 3(5) by (cases st2) auto
  then obtain ws3 ws4 post where 4: "r3 = ws3 @ ''to'' @ ws4 @ ''jump'' @ post" "spaces ws3" "spaces ws4"
    "post = [] \<or> \<not> isWordChar (hd post)"
    unfolding in_rx_tail by blast
  show ?R
    unfolding spec_match_def
  proof (rule exI[of _ pre], rule exI[of _ ws1], rule exI[of _ ws2], rule exI[of _ tp],
        rule exI[of _ subj], rule exI[of _ ws3], rule exI[of _ ws4], rule exI[of _ post])
    show "pre @ r0 = pre @ ''i'' @ ws1 @ ''want'' @ ws2 @ tp @ subj @ ws3 @ ''to'' @ ws4 @ ''jump'' @ post
      \<and> (pre = [] \<or> \<not> isWordChar (last pre))
      \<and> (post = [] \<or> \<not> isWordChar (hd post))
      \<and> spaces ws1 \<and> spaces ws2 \<and> spaces ws3 \<and> spaces ws4
      \<and> (tp = [] \<or> (\<exists>ws. tp = ''the'' @ ws \<and> spaces ws))
      \<and> subj \<noteq> [] \<and> (\<forall>ch \<in> set subj. \<not> isLineTerminator ch)
      \<and> length pre = length pre
      \<and> a = length (pre @ ''i'' @ ws1 @ ''want'' @ ws2 @ tp)
      \<and> b = a + length subj"
      using bd 1 2 3 4 ab by simp
  qed
next
  assume ?R
  then obtain pre' ws1 ws2 tp subj ws3 ws4 post where
    s: "pre @ r0 = pre' @ ''i'' @ ws1 @ ''want'' @ ws2 @ tp @ subj @ ws3 @ ''to'' @ ws4 @ ''jump'' @ post"
    and bd: "pre' = [] \<or> \<not> isWordChar (last pre')" "post = [] \<or> \<not> isWordChar (hd post)"
    and sp: "spaces ws1" "spaces ws2" "spaces ws3" "spaces ws4"
    and tp: "tp = [] \<or> (\<exists>ws. tp = ''the'' @ ws \<and> spaces ws)"
    and subj: "subj \<noteq> []" "\<forall>ch \<in> set subj. \<not> isLineTerminator ch"
    and len: "length pre = length pre'"
    and ab: "a = length (pre' @ ''i'' @ ws1 @ ''want'' @ ws2 @ tp)" "b = a + length subj"
    unfolding spec_match_def by blast
  from s len have pre: "pre' = pre"
    and r0: "r0 = ''i'' @ ws1 @ ''want'' @ ws2 @ tp @ subj @ ws3 @ ''to'' @ ws4 @ ''jump'' @ post"
    by simp_all
  let ?h = "(pre @ ''i'' @ ws1 @ ''want'', ws2 @ tp @ subj @ ws3 @ ''to'' @ ws4 @ ''jump'' @ post, None :: (nat \<times> nat) option)"
  let ?st1 = "((pre @ ''i'' @ ws1 @ ''want'') @ ws2 @ tp, subj @ ws3 @ ''to'' @ ws4 @ ''jump'' @ post, None :: (nat \<times> nat) option)"
  let ?sn2 = "((pre @ ''i'' @ ws1 @ ''want'') @ ws2 @ tp) @ subj"
  let ?st2 = "(?sn2, ws3 @ ''to'' @ ws4 @ ''jump'' @ post, Some (length (fst ?st1), length (fst ?st1) + length subj))"
  have h: "?h \<in> set (m rx_head (pre, r0, None))"
    unfolding in_rx_head using bd(1) sp(1) r0 pre by blast
  have st1: "?st1 \<in> set (m rx_gap ?h)"
    unfolding in_rx_gap using sp(2) tp by blast
  have st2: "?st2 \<in> set (m rx_subject ?st1)"
    unfolding in_rx_subject using subj by auto
  have "(?sn2 @ ws3 @ ''to'' @ ws4 @ ''jump'', post, Some (length (fst ?st1), length (fst ?st1) + length subj))
          \<in> set (m rx_tail ?st2)"
    unfolding in_rx_tail using sp(3,4) bd(2) by blast
  then have t: "m rx_tail ?st2 \<noteq> []" by auto
  show ?L
    unfolding candidate_def
  proof (rule exI[of _ ?h], rule exI[of _ ?st1], rule exI[of _ ?st2])
    show "?h \<in> set (m rx_head (pre, r0, None)) \<and> ?st1 \<in> set (m rx_gap ?h)
        \<and> ?st2 \<in> set (m rx_subject ?st1) \<and> m rx_tail ?st2 \<noteq> []
        \<and> a = length (fst ?st1) \<and> b = length (fst ?st2)"
      using h st1 st2 t ab pre by simp
  qed
qed

lemma wantToJump_unfold:
  "m wantToJump st0 =
     concat (map (\<lambda>h. concat (map (\<lambda>st1. concat (map (m rx_tail) (m rx_subject st1))) (m rx_gap h)))
       (m rx_head st0))"
  by (simp add: wantToJump_pieces m_Seq_fun)

lemma candidate_success:
  assumes "candidate st0 a b"
  shows "m wantToJump st0 \<noteq> []"
proof -
  from assms obtain h st1 st2 where h: "h \<in> set (m rx_head st0)"
    and st1: "st1 \<in> set (m rx_gap h)" and st2: "st2 \<in> set (m rx_subject st1)"
    and t: "m rx_tail st2 \<noteq> []"
    unfolding candidate_def by blast
  from t obtain y where "y \<in> set (m rx_tail st2)" by (cases "m rx_tail st2") auto
  with h st1 st2 have "y \<in> set (m wantToJump st0)"
    unfolding wantToJump_unfold by auto
  then show ?thesis by auto
qed

lemma first_success:
  assumes "m wantToJump st0 = y # ys"
  shows "\<exists>a b. snd (snd y) = Some (a, b) \<and> candidate st0 a b
           \<and> (\<forall>a' b'. candidate st0 a' b' \<longrightarrow> a' \<le> a \<and> (a' = a \<longrightarrow> b \<le> b'))"
proof -
  let ?F = "\<lambda>st1. concat (map (m rx_tail) (m rx_subject st1))"
  let ?G = "\<lambda>h. concat (map ?F (m rx_gap h))"
  from assms have "concat (map ?G (m rx_head st0)) = y # ys"
    by (simp only: wantToJump_unfold)
  from concat_map_Cons[OF this] obtain hs h hs' ys1 where
    hd: "m rx_head st0 = hs @ h # hs'" and G: "?G h = y # ys1" by blast
  from concat_map_Cons[OF G] obtain ps st1 zs ys2 where
    gap: "m rx_gap h = ps @ st1 # zs" and ps: "\<forall>p \<in> set ps. ?F p = []" and F: "?F st1 = y # ys2"
    by blast
  from concat_map_Cons[OF F] obtain ps' st2 zs' ys3 where
    sub: "m rx_subject st1 = ps' @ st2 # zs'" and ps': "\<forall>p \<in> set ps'. m rx_tail p = []"
    and tl: "m rx_tail st2 = y # ys3"
    by blast
  have h: "h \<in> set (m rx_head st0)" using hd by simp
  have st1: "st1 \<in> set (m rx_gap h)" using gap by simp
  have st2: "st2 \<in> set (m rx_subject st1)" using sub by simp
  let ?a = "length (fst st1)" and ?b = "length (fst st2)"
  have "y \<in> set (m rx_tail st2)" using tl by simp
  then have cap: "snd (snd y) = Some (?a, ?b)"
    using rx_tail_cap rx_subject_cap[OF st2] by simp
  have "m rx_tail st2 \<noteq> []" using tl by simp
  with h st1 st2 have cand: "candidate st0 ?a ?b"
    unfolding candidate_def by blast
  have zs: "\<forall>z \<in> set zs. length (fst z) < ?a"
    using rx_gap_sorted[of h] unfolding gap by (auto simp: sorted_wrt_append)
  have zs': "\<forall>z \<in> set zs'. ?b < length (fst z)"
    using rx_subject_sorted[of st1] unfolding sub by (auto simp: sorted_wrt_append)
  have best: "a' \<le> ?a \<and> (a' = ?a \<longrightarrow> ?b \<le> b')" if "candidate st0 a' b'" for a' b'
  proof -
    from that obtain h' st1' st2' where h': "h' \<in> set (m rx_head st0)"
      and st1': "st1' \<in> set (m rx_gap h')" and st2': "st2' \<in> set (m rx_subject st1')"
      and t': "m rx_tail st2' \<noteq> []" and ab': "a' = length (fst st1')" "b' = length (fst st2')"
      unfolding candidate_def by blast
    have "h' = h" using rx_head_unique[OF h' h] .
    have "?F st1' \<noteq> []" using st2' t' by auto
    with ps have "st1' \<notin> set ps" by blast
    moreover have "st1' \<in> set (ps @ st1 # zs)" using st1' \<open>h' = h\<close> gap by simp
    ultimately have "st1' = st1 \<or> st1' \<in> set zs" by auto
    then show ?thesis
    proof
      assume e: "st1' = st1"
      from ps' t' have "st2' \<notin> set ps'" by blast
      moreover have "st2' \<in> set (ps' @ st2 # zs')" using st2' e sub by simp
      ultimately have "st2' = st2 \<or> st2' \<in> set zs'" by auto
      with zs' have "?b \<le> b'" unfolding ab' by auto
      with e ab' show ?thesis by simp
    next
      assume "st1' \<in> set zs"
      with zs ab' show ?thesis by auto
    qed
  qed
  from cap cand best show ?thesis by blast
qed

lemma search_None:
  "search r sn rest = None \<longleftrightarrow> (\<forall>k \<le> length rest. m r (sn @ take k rest, drop k rest, None) = [])"
proof (induction rest arbitrary: sn)
  case Nil
  show ?case by (simp split: list.splits)
next
  case (Cons x xs)
  have *: "(\<forall>k \<le> Suc (length xs). P k) \<longleftrightarrow> P 0 \<and> (\<forall>k \<le> length xs. P (Suc k))" for P
    by (metis Suc_le_mono le0 not0_implies_Suc)
  show ?case
    by (simp add: Cons.IH * split: list.splits)
qed

lemma search_Some:
  "search r sn rest = Some (i, y) \<Longrightarrow>
     \<exists>k \<le> length rest. i = length sn + k
       \<and> (\<forall>j < k. m r (sn @ take j rest, drop j rest, None) = [])
       \<and> (\<exists>ys. m r (sn @ take k rest, drop k rest, None) = y # ys)"
proof (induction rest arbitrary: sn)
  case Nil
  then show ?case by (simp split: list.splits)
next
  case (Cons x xs)
  show ?case
  proof (cases "m r (sn, x # xs, None)")
    case Nil
    with Cons.prems have "search r (sn @ [x]) xs = Some (i, y)" by simp
    from Cons.IH[OF this] obtain k where k: "k \<le> length xs" "i = length (sn @ [x]) + k"
      "\<forall>j < k. m r ((sn @ [x]) @ take j xs, drop j xs, None) = []"
      "\<exists>ys. m r ((sn @ [x]) @ take k xs, drop k xs, None) = y # ys" by blast
    have "\<forall>j < Suc k. m r (sn @ take j (x # xs), drop j (x # xs), None) = []"
    proof (intro allI impI)
      fix j assume "j < Suc k"
      then show "m r (sn @ take j (x # xs), drop j (x # xs), None) = []"
        using Nil k(3) by (cases j) simp_all
    qed
    with k show ?thesis
      by (intro exI[of _ "Suc k"]) simp
  next
    case (Cons z zs)
    with Cons.prems show ?thesis
      by (intro exI[of _ 0]) simp
  qed
qed

lemma spec_match_bound: "spec_match s i a b \<Longrightarrow> i \<le> length s"
  unfolding spec_match_def by auto

lemma spec_match_candidate:
  "spec_match s i a b \<longleftrightarrow> i \<le> length s \<and> candidate (take i s, drop i s, None) a b"
  using candidate_spec_match[of "take i s" "drop i s" a b] spec_match_bound[of s i a b]
  by (auto simp: min_def)

lemma spec_first_match_unique:
  "spec_first_match s i a b \<Longrightarrow> spec_first_match s i' a' b' \<Longrightarrow> i' = i \<and> a' = a \<and> b' = b"
  unfolding spec_first_match_def by (meson le_antisym)

lemma extract_cases:
  "(extractPersonFromDecision u = Inr None \<and> \<not> (\<exists>i a b. spec_match (trim (toLowerCase u)) i a b))
   \<or> (\<exists>i a b. spec_first_match (trim (toLowerCase u)) i a b
        \<and> extractPersonFromDecision u = Inr (Some (trim (slice a b (trim (toLowerCase u))))))"
proof -
  let ?s = "trim (toLowerCase u)"
  show ?thesis
  proof (cases "match wantToJump ?s")
    case None
    then have none: "\<forall>k \<le> length ?s. m wantToJump (take k ?s, drop k ?s, None) = []"
      using search_None[of wantToJump "[]" ?s] by (simp add: match_def)
    have "\<not> spec_match ?s i a b" for i a b
      using none candidate_success unfolding spec_match_candidate by blast
    moreover have "extractPersonFromDecision u = Inr None"
      using None by (simp add: extractPersonFromDecision_def)
    ultimately show ?thesis by blast
  next
    case (Some res)
    obtain i y where res: "res = (i, y)" by (cases res) auto
    from Some have "search wantToJump [] ?s = Some (i, y)" by (simp add: match_def res)
    from search_Some[OF this] obtain ys where i: "i \<le> length ?s"
      and before: "\<forall>j < i. m wantToJump (take j ?s, drop j ?s, None) = []"
      and here: "m wantToJump (take i ?s, drop i ?s, None) = y # ys" by auto
    from first_success[OF here] obtain a b where cap: "snd (snd y) = Some (a, b)"
      and cand: "candidate (take i ?s, drop i ?s, None) a b"
      and best: "\<forall>a' b'. candidate (take i ?s, drop i ?s, None) a' b' \<longrightarrow> a' \<le> a \<and> (a' = a \<longrightarrow> b \<le> b')"
      by blast
    have sm: "spec_match ?s i a b" unfolding spec_match_candidate using i cand by simp
    have "i \<le> i' \<and> (i' = i \<longrightarrow> a' \<le> a \<and> (a' = a \<longrightarrow> b \<le> b'))" if "spec_match ?s i' a' b'" for i' a' b'
    proof -
      from that have c': "candidate (take i' ?s, drop i' ?s, None) a' b'"
        unfolding spec_match_candidate by simp
      from candidate_success[OF c'] before have "i \<le> i'" by (meson not_le)
      moreover have "a' \<le> a \<and> (a' = a \<longrightarrow> b \<le> b')" if "i' = i"
        using best c' that by simp
      ultimately show ?thesis by blast
    qed
    with sm have "spec_first_match ?s i a b" unfolding spec_first_match_def by blast
    moreover have "extractPersonFromDecision u = Inr (Some (trim (slice a b ?s)))"
      using Some cap by (cases y) (simp add: extractPersonFromDecision_def res)
    ultimately show ?thesis by blast
  qed
qed

lemma extractPersonFromDecision_total: "\<exists>res. extractPersonFromDecision u = Inr res"
  using extract_cases[of u] by blast

section \<open>The steps of the machine, state by state\<close>

lemmas guard_defs = no_guard_def pure_guard_def isSpeakingWithBuffer_def isSpeakingWithLaughter_def
  Math_random_def decisionHeard_def heardYes_def heardNo_def

lemmas action_defs = no_action_def assignDecision_def assignUtterance_def assignCompletion_def
  assignFallback_def assignFirstMessageDone_def assignLastResult_def assignNotSure_def
  assignClosing_def

lemma first_enabled_Cons:
  "first_enabled (t # ts) c ev r =
     (if fst (guard t c ev r) then (Some t, snd (guard t c ev r))
      else first_enabled ts c ev (snd (guard t c ev r)))"
  by (simp split: prod.splits bool.splits)

lemmas machine_defs = settle_def step_def fire_def first_enabled_Cons

lemma step_Init: "step mc Init = mc"
  by (simp add: step_def)

lemma start_eq: "start r = \<lparr> current = SetVoice, ctx = initialContext, rnd = r \<rparr>"
  by (simp add: start_def settle_def)

lemma settle_plain: "always (current mc) = [] \<Longrightarrow> settle mc ev = mc"
  by (simp add: settle_def)

lemma oneThird_pos: "0 < oneThird"
  by (simp add: oneThird_def)

lemma settle_Determine:
  "current mc = DetermineTheManipulationState \<Longrightarrow> settle mc ev =
     (if shd (rnd mc) < oneThird
      then mc\<lparr> current := SpeakingWithBuffer_Condition3, rnd := stl (rnd mc) \<rparr>
      else if shd (stl (rnd mc)) < twoThirds
      then mc\<lparr> current := SpeakingWithLaughter_Condition2, rnd := stl (stl (rnd mc)) \<rparr>
      else mc\<lparr> current := SpeakingWithPause_Condition1, rnd := stl (stl (rnd mc)) \<rparr>)"
  by (simp add: machine_defs guard_defs action_defs del: first_enabled.simps(2))

lemma step_SetVoice:
  assumes "current mc = SetVoice"
  shows "step mc (OnDone out) = mc\<lparr> current := AttendUser \<rparr>"
    and "step mc OnError = mc\<lparr> current := Loop_Speaking \<rparr>"
  using assms by (simp_all add: machine_defs guard_defs action_defs del: first_enabled.simps(2))

lemma step_AttendUser:
  assumes "current mc = AttendUser"
  shows "step mc (OnDone out) = mc\<lparr> current := Loop_Speaking \<rparr>"
    and "step mc OnError = mc\<lparr> current := Loop_Speaking \<rparr>"
  using assms by (simp_all add: machine_defs guard_defs action_defs del: first_enabled.simps(2))

lemma step_Loop_Speaking:
  assumes "current mc = Loop_Speaking"
  shows "step mc (OnDone out) =
           mc\<lparr> current := Loop_Listening, ctx := (ctx mc)\<lparr> isFirstMessage := False \<rparr> \<rparr>"
    and "step mc OnError = mc\<lparr> current := Loop_Listening \<rparr>"
  using assms by (simp_all add: machine_defs guard_defs action_defs del: first_enabled.simps(2))

lemma step_Loop_Listening:
  assumes "current mc = Loop_Listening"
  shows "step mc (OnDone out) =
           (if extractPersonFromDecision out \<noteq> Inr None
            then settle (mc\<lparr> current := DetermineTheManipulationState,
                    ctx := (ctx mc)\<lparr> lastResult := out,
                      extractedPerson := orEmpty (extractPersonFromDecision out),
                      messages := messages (ctx mc) @ [\<lparr> role = User, content = out \<rparr>] \<rparr> \<rparr>) (OnDone out)
            else mc\<lparr> current := Loop_ProcessingResponse,
                    ctx := (ctx mc)\<lparr> lastResult := out,
                      messages := messages (ctx mc) @ [\<lparr> role = User, content = out \<rparr>] \<rparr> \<rparr>)"
    and "step mc OnError = mc\<lparr> current := Loop_Speaking \<rparr>"
  using assms
  by (simp_all add: step_def fire_def first_enabled_Cons guard_defs action_defs Let_def settle_plain
      del: first_enabled.simps(2))

lemma step_Loop_ProcessingResponse:
  assumes "current mc = Loop_ProcessingResponse"
  shows "step mc (OnDone out) =
           mc\<lparr> current := Loop_Speaking,
               ctx := (ctx mc)\<lparr> messages := messages (ctx mc) @ [\<lparr> role = Assistant, content = out \<rparr>] \<rparr> \<rparr>"
    and "step mc OnError =
           mc\<lparr> current := Loop_Speaking,
               ctx := (ctx mc)\<lparr> messages := messages (ctx mc) @
                 [\<lparr> role = Assistant, content = ''I couldn't process that. Please say it again.'' \<rparr>] \<rparr> \<rparr>"
  using assms by (simp_all add: machine_defs guard_defs action_defs del: first_enabled.simps(2))

lemma step_speaking_condition:
  assumes "current mc = SpeakingWithPause_Condition1 \<or> current mc = SpeakingWithLaughter_Condition2
     \<or> current mc = SpeakingWithBuffer_Condition3 \<or> current mc = Clarify"
  shows "step mc (OnDone out) = mc\<lparr> current := Manipulation_Listening \<rparr>"
    and "step mc OnError = mc\<lparr> current := Manipulation_Listening \<rparr>"
  using assms by (auto simp: machine_defs guard_defs action_defs simp del: first_enabled.simps(2))

lemma step_Manipulation_Listening:
  assumes "current mc = Manipulation_Listening"
  shows "step mc (OnDone out) =
           (if isAffirmative out
            then mc\<lparr> current := End, ctx := (ctx mc)\<lparr> lastResult := out \<rparr> \<rparr>
            else if isNegative out
            then mc\<lparr> current := Loop_ProcessingResponse,
                    ctx := (ctx mc)\<lparr> lastResult := out,
                      messages := messages (ctx mc) @ [\<lparr> role = User, content = ''I am not sure.'' \<rparr>] \<rparr> \<rparr>
            else mc\<lparr> current := Clarify, ctx := (ctx mc)\<lparr> lastResult := out \<rparr> \<rparr>)"
    and "step mc OnError = settle (mc\<lparr> current := DetermineTheManipulationState \<rparr>) OnError"
  using assms
  by (simp_all add: step_def fire_def first_enabled.simps(1) first_enabled_Cons no_guard_def
      pure_guard_def heardYes_def heardNo_def action_defs settle_plain
      del: first_enabled.simps)

lemma step_End:
  assumes "current mc = End"
  shows "step mc (OnDone out) =
           mc\<lparr> current := Done,
               ctx := (ctx mc)\<lparr> messages := messages (ctx mc) @
                 [\<lparr> role = Assistant, content = ''Thank you for your participation.'' \<rparr>] \<rparr> \<rparr>"
    and "step mc OnError = mc\<lparr> current := Done \<rparr>"
  using assms by (simp_all add: machine_defs guard_defs action_defs del: first_enabled.simps(2))

lemma step_no_invoke:
  assumes "current mc = Done \<or> current mc = SetupFurhat \<or> current mc = Loop
     \<or> current mc = Manipulation \<or> current mc = DetermineTheManipulationState"
  shows "step mc ev = mc"
  using assms by (cases ev) (auto simp: step_def)

lemmas step_simps = step_Init step_SetVoice step_AttendUser step_Loop_Speaking step_Loop_Listening
  step_Loop_ProcessingResponse step_speaking_condition step_Manipulation_Listening step_End
  step_no_invoke settle_Determine oneThird_pos


section \<open>Facts about single steps and runs\<close>

lemma str_includes_sublist: "str_includes s t \<longleftrightarrow> sublist t s"
  by (induction s) (auto simp: sublist_Cons_right)


lemma step_messages:
  "\<exists>added. messages (ctx (step mc ev)) = messages (ctx mc) @ added \<and> length added \<le> 1
     \<and> (\<forall>x \<in> set added. role x = User \<or> role x = Assistant)"
  by (cases "current mc"; cases ev) (simp_all add: step_simps)

lemma step_isFirstMessage:
  "isFirstMessage (ctx (step mc ev)) \<longleftrightarrow>
     isFirstMessage (ctx mc) \<and> \<not> (current mc = Loop_Speaking \<and> (\<exists>out. ev = OnDone out))"
  by (cases "current mc"; cases ev) (simp_all add: step_simps)

lemma run_append: "run mc (evs @ evs') = run (run mc evs) evs'"
  by (induction evs arbitrary: mc) simp_all

lemma reachable_run: "reachable mc \<Longrightarrow> reachable (run mc evs)"
  by (induction evs arbitrary: mc) (simp_all add: reachable_step)

lemma run_isFirstMessage:
  "isFirstMessage (ctx (run mc evs)) \<longleftrightarrow> isFirstMessage (ctx mc) \<and> \<not> spoke mc evs"
proof (induction evs arbitrary: mc)
  case Nil
  show ?case by simp
next
  case (Cons ev evs)
  show ?case
    by (cases ev) (auto simp: Cons.IH step_isFirstMessage)
qed

lemma reachable_messages:
  "reachable mc \<Longrightarrow> \<exists>added. messages (ctx mc) = messages initialContext @ added
     \<and> (\<forall>x \<in> set added. role x = User \<or> role x = Assistant)"
proof (induction rule: reachable.induct)
  case (reachable_start r)
  show ?case by (simp add: start_eq)
next
  case (reachable_step mc ev)
  then obtain added where a: "messages (ctx mc) = messages initialContext @ added"
    "\<forall>x \<in> set added. role x = User \<or> role x = Assistant" by blast
  obtain added' where b: "messages (ctx (step mc ev)) = messages (ctx mc) @ added'"
    "\<forall>x \<in> set added'. role x = User \<or> role x = Assistant"
    using step_messages[of mc ev] by blast
  have "messages (ctx (step mc ev)) = messages initialContext @ (added @ added')"
    using a b by simp
  moreover have "\<forall>x \<in> set (added @ added'). role x = User \<or> role x = Assistant"
    using a b by auto
  ultimately show ?case by blast
qed

lemma step_into_Done:
  "current (step mc ev) = Done \<Longrightarrow> current mc = Done \<or> current mc = End"
  by (cases "current mc"; cases ev) (auto simp: step_simps split: if_splits)

lemma step_into_End:
  "current (step mc ev) = End \<Longrightarrow> current mc \<noteq> End \<Longrightarrow>
     current mc = Manipulation_Listening \<and> (\<exists>out. ev = OnDone out \<and> isAffirmative out)"
  by (cases "current mc"; cases ev) (auto simp: step_simps split: if_splits)

lemma onError_targets:
  "t \<in> set (onError n) \<Longrightarrow> n \<noteq> End \<Longrightarrow> enter (target t) \<noteq> Done"
  by (cases n) auto

lemma run_into_End_or_Done:
  "current (run mc evs) = End \<or> current (run mc evs) = Done \<Longrightarrow>
     current mc = End \<or> current mc = Done \<or> affirmed mc evs"
proof (induction evs arbitrary: mc)
  case Nil
  then show ?case by simp
next
  case (Cons ev evs)
  from Cons.prems have "current (run (step mc ev) evs) = End \<or> current (run (step mc ev) evs) = Done"
    by simp
  from Cons.IH[OF this] consider
    (a) "current (step mc ev) = End" | (b) "current (step mc ev) = Done" | (c) "affirmed (step mc ev) evs"
    by blast
  then show ?case
  proof cases
    case a
    show ?thesis
    proof (cases "current mc = End")
      case True then show ?thesis by simp
    next
      case False
      from step_into_End[OF a False] show ?thesis by auto
    qed
  next
    case b
    from step_into_Done[OF b] show ?thesis by blast
  next
    case c
    then show ?thesis by simp
  qed
qed

lemma step_appends:
  "messages (ctx (step mc ev)) = messages (ctx mc)
   \<or> (\<exists>x. messages (ctx (step mc ev)) = messages (ctx mc) @ [x]
        \<and> (x = \<lparr> role = User, content = event_output ev \<rparr>
           \<or> x = \<lparr> role = Assistant, content = event_output ev \<rparr>
           \<or> x = \<lparr> role = User, content = ''I am not sure.'' \<rparr>
           \<or> x = \<lparr> role = Assistant, content = ''I couldn't process that. Please say it again.'' \<rparr>
           \<or> x = \<lparr> role = Assistant, content = ''Thank you for your participation.'' \<rparr>))"
  by (cases "current mc"; cases ev) (simp_all add: step_simps)

lemma speaking_frame:
  "current mc = SpeakingWithPause_Condition1 \<or> current mc = SpeakingWithLaughter_Condition2
     \<or> current mc = SpeakingWithBuffer_Condition3 \<or> current mc = Clarify \<Longrightarrow>
   ctx (step mc ev) = ctx mc"
  by (cases ev) (simp_all add: step_simps)

lemma manipulation_step_messages:
  "in_manipulation (current mc) \<Longrightarrow>
     ((in_manipulation (current (step mc ev)) \<or> current (step mc ev) = End)
        \<and> messages (ctx (step mc ev)) = messages (ctx mc))
     \<or> (current (step mc ev) = Loop_ProcessingResponse
        \<and> messages (ctx (step mc ev)) = messages (ctx mc) @ [\<lparr> role = User, content = ''I am not sure.'' \<rparr>])"
  unfolding in_manipulation_def
  by (cases ev) (auto simp: step_simps split: if_splits)

lemma manipulation_run_messages:
  "in_manipulation (current mc) \<Longrightarrow> stays_in_manipulation mc evs \<Longrightarrow>
     ((in_manipulation (current (run mc evs)) \<or> current (run mc evs) = End)
        \<and> messages (ctx (run mc evs)) = messages (ctx mc))
     \<or> (current (run mc evs) = Loop_ProcessingResponse
        \<and> messages (ctx (run mc evs)) = messages (ctx mc) @ [\<lparr> role = User, content = ''I am not sure.'' \<rparr>])"
proof (induction evs arbitrary: mc)
  case Nil
  then show ?case by simp
next
  case (Cons ev evs)
  show ?case
  proof (cases evs)
    case Nil
    then show ?thesis using manipulation_step_messages[OF Cons.prems(1), of ev] by simp
  next
    case (Cons ev' evs')
    with Cons.prems have im: "in_manipulation (current (step mc ev))"
      and st: "stays_in_manipulation (step mc ev) evs" by simp_all
    have "current (step mc ev) \<noteq> Loop_ProcessingResponse"
      using im by (auto simp: in_manipulation_def)
    then have "messages (ctx (step mc ev)) = messages (ctx mc)"
      using manipulation_step_messages[OF Cons.prems(1), of ev] by blast
    then show ?thesis using Cons.IH[OF im st] by simp
  qed
qed

lemma chatCompletion_never_rejects: "actorEvent (chatCompletion msgs fetched) \<noteq> OnError"
  by (auto simp: actorEvent_def chatCompletion_def fetchChatCompletion_def split: sum.splits)

lemma spec_negative_guards:
  assumes "spec_classify u = Negative"
  shows "\<not> isAffirmative u" and "isNegative u"
  using assms
  by (auto simp: spec_classify_def isAffirmative_def isNegative_def Let_def str_includes_sublist
      split: if_splits)

lemma listening_agrees_unless_positive:
  assumes "current mc = Manipulation_Listening" and "trim (toLowerCase u) \<noteq> ''positive''"
  shows "current (step mc (OnDone u)) =
     (case spec_classify u of Affirmative \<Rightarrow> End | Negative \<Rightarrow> Loop_ProcessingResponse | Ambiguous \<Rightarrow> Clarify)"
  using assms
  by (simp add: step_simps spec_classify_def isAffirmative_def isNegative_def Let_def str_includes_sublist)

section \<open>Concrete sessions\<close>

lemma extract_pilot:
  "extractPersonFromDecision ''I want the Pilot to jump'' = Inr (Some ''pilot'')"
  by code_simp

lemma extract_hello: "extractPersonFromDecision ''Hello'' = Inr None"
  by code_simp

lemma affirmative_yes: "isAffirmative ''yes''"
  by code_simp

lemma positive_guards: "\<not> isAffirmative ''positive''" "\<not> isNegative ''positive''"
  by code_simp+

lemma negative_No: "\<not> isAffirmative ''No''" "isNegative ''No''"
  by code_simp+

lemma run_to_Condition3:
  "run (start (sconst 0)) session_to_Condition3 =
     \<lparr> current = SpeakingWithBuffer_Condition3,
       ctx = initialContext\<lparr> lastResult := ''I want the Pilot to jump'', extractedPerson := ''pilot'',
         messages := messages initialContext @ [\<lparr> role = User, content = ''I want the Pilot to jump'' \<rparr>],
         isFirstMessage := False \<rparr>,
       rnd = sconst 0 \<rparr>"
  by (simp add: session_to_Condition3_def start_eq step_simps extract_pilot orEmpty_def)

lemma run_to_Manipulation_Listening:
  "run (start (sconst 0)) session_to_Manipulation_Listening =
     \<lparr> current = Manipulation_Listening,
       ctx = initialContext\<lparr> lastResult := ''I want the Pilot to jump'', extractedPerson := ''pilot'',
         messages := messages initialContext @ [\<lparr> role = User, content = ''I want the Pilot to jump'' \<rparr>],
         isFirstMessage := False \<rparr>,
       rnd = sconst 0 \<rparr>"
  unfolding session_to_Manipulation_Listening_def run_append run_to_Condition3
  by (simp add: step_simps)

lemma run_to_End:
  "run (start (sconst 0)) session_to_End =
     \<lparr> current = End,
       ctx = initialContext\<lparr> lastResult := ''yes'', extractedPerson := ''pilot'',
         messages := messages initialContext @ [\<lparr> role = User, content = ''I want the Pilot to jump'' \<rparr>],
         isFirstMessage := False \<rparr>,
       rnd = sconst 0 \<rparr>"
  unfolding session_to_End_def run_append run_to_Manipulation_Listening
  by (simp add: step_simps affirmative_yes)

lemma run_to_ProcessingResponse:
  "run (start r) session_to_ProcessingResponse =
     \<lparr> current = Loop_ProcessingResponse,
       ctx = initialContext\<lparr> lastResult := ''Hello'',
         messages := messages initialContext @ [\<lparr> role = User, content = ''Hello'' \<rparr>],
         isFirstMessage := False \<rparr>,
       rnd = r \<rparr>"
  by (simp add: session_to_ProcessingResponse_def start_eq step_simps extract_hello)

section \<open>The claims\<close>

text \<open>
  Claim C1. \<open>extractPersonFromDecision\<close> never throws. It returns \<open>null\<close> exactly when
  the lowercased, trimmed utterance has no match of the pattern; otherwise it returns the
  trimmed subject of the match that is used: the first occurrence, with the optional
  \<open>the\<close> taken where a match allows it, and the shortest subject.
\<close>

theorem extractPersonFromDecision_spec:
  "(\<exists>res. extractPersonFromDecision u = Inr res)
   \<and> (extractPersonFromDecision u = Inr None \<longleftrightarrow>
        \<not> (\<exists>i a b. spec_match (trim (toLowerCase u)) i a b))
   \<and> (extractPersonFromDecision u = Inr (Some p) \<longleftrightarrow>
        (\<exists>i a b. spec_first_match (trim (toLowerCase u)) i a b
           \<and> p = trim (slice a b (trim (toLowerCase u)))))"
proof -
  let ?s = "trim (toLowerCase u)"
  from extract_cases[of u] show ?thesis
  proof
    assume n: "extractPersonFromDecision u = Inr None \<and> \<not> (\<exists>i a b. spec_match ?s i a b)"
    then have "\<not> (\<exists>i a b. spec_first_match ?s i a b)"
      unfolding spec_first_match_def by blast
    with n show ?thesis by simp
  next
    assume "\<exists>i a b. spec_first_match ?s i a b
        \<and> extractPersonFromDecision u = Inr (Some (trim (slice a b ?s)))"
    then obtain i a b where f: "spec_first_match ?s i a b"
      and e: "extractPersonFromDecision u = Inr (Some (trim (slice a b ?s)))" by blast
    have m: "\<exists>i a b. spec_match ?s i a b" using f unfolding spec_first_match_def by blast
    have "(\<exists>i' a' b'. spec_first_match ?s i' a' b' \<and> p = trim (slice a' b' ?s))
            \<longleftrightarrow> p = trim (slice a b ?s)"
      using f spec_first_match_unique[OF f] by blast
    with e m show ?thesis by auto
  qed
qed

lemma teacher_normalised:
  "trim (toLowerCase ''I want the Teacher to jump'') = ''i want the teacher to jump''"
  by code_simp

lemma stay_normalised:
  "trim (toLowerCase ''I think the pilot should stay'') = ''i think the pilot should stay''"
  by code_simp

lemma extract_teacher:
  "extractPersonFromDecision ''I want the Teacher to jump'' = Inr (Some ''teacher'')"
  by code_simp

lemma extract_stay: "extractPersonFromDecision ''I think the pilot should stay'' = Inr None"
  by code_simp

theorem extractPersonFromDecision_spec_witness:
  "extractPersonFromDecision ''I want the Teacher to jump'' = Inr (Some ''teacher'')
   \<and> (\<exists>i a b. spec_first_match ''i want the teacher to jump'' i a b
        \<and> ''teacher'' = trim (slice a b ''i want the teacher to jump''))
   \<and> extractPersonFromDecision ''I think the pilot should stay'' = Inr None
   \<and> \<not> (\<exists>i a b. spec_match ''i think the pilot should stay'' i a b)"
  using extractPersonFromDecision_spec[of "''I want the Teacher to jump''" "''teacher''"]
    extractPersonFromDecision_spec[of "''I think the pilot should stay''" "[]"]
  by (simp only: teacher_normalised stay_normalised extract_teacher extract_stay) simp


text \<open>
  Claim C3. Inside \<open>Manipulation.Listening\<close> an utterance whose normalised form is
  \<open>yes\<close>, \<open>yeah\<close>, \<open>positive\<close> or \<open>yep\<close>, or contains \<open>yes\<close>, is affirmative and leads
  to \<open>End\<close>. The inline guard leaves \<open>positive\<close> out: in a session that has reached
  \<open>Manipulation.Listening\<close> the utterance \<open>positive\<close>, affirmative by the claim and by the
  named guard \<open>saidYes\<close>, leads to \<open>Clarify\<close>. (For every other utterance the machine
  classifies as the claim says: \<open>listening_agrees_unless_positive\<close>.)
\<close>
theorem positive_is_not_recognised:
  "current (run (start (sconst 0)) session_to_Manipulation_Listening) = Manipulation_Listening
   \<and> spec_classify ''positive'' = Affirmative
   \<and> current (step (run (start (sconst 0)) session_to_Manipulation_Listening) (OnDone ''positive'')) = Clarify
   \<and> fst (saidYes (initialContext\<lparr> lastResult := ''positive'' \<rparr>) Init (sconst 0))"
proof -
  have n: "trim (toLowerCase ''positive'') = ''positive''" by code_simp
  show ?thesis
    unfolding run_to_Manipulation_Listening
    by (simp add: spec_classify_def saidYes_def pure_guard_def n step_simps positive_guards)
qed

text \<open>
  Claim C4. The messages start as one system message followed by one assistant message;
  in every reachable state they are these two followed by user and assistant messages
  only; and every step keeps the messages there are, in their order, and appends user or
  assistant messages only.
\<close>
theorem messages_append_only:
  "map role (messages initialContext) = [System, Assistant] \<and>
   (reachable mc \<longrightarrow>
      (\<exists>added. messages (ctx mc) = messages initialContext @ added
         \<and> (\<forall>x \<in> set added. role x = User \<or> role x = Assistant))) \<and>
   (\<exists>added. messages (ctx (step mc ev)) = messages (ctx mc) @ added
         \<and> (\<forall>x \<in> set added. role x = User \<or> role x = Assistant))"
  using reachable_messages[of mc] step_messages[of mc ev]
  by (auto simp: initialContext_def)

theorem messages_append_only_witness:
  "reachable (run (start (sconst 0)) session_to_End)
   \<and> messages (ctx (run (start (sconst 0)) session_to_End)) =
       messages initialContext @ [\<lparr> role = User, content = ''I want the Pilot to jump'' \<rparr>]
   \<and> messages (ctx (step (run (start (sconst 0)) session_to_End) (OnDone []))) =
       messages (ctx (run (start (sconst 0)) session_to_End)) @
         [\<lparr> role = Assistant, content = ''Thank you for your participation.'' \<rparr>]"
proof -
  have r: "reachable (run (start (sconst 0)) session_to_End)"
    by (rule reachable_run) (rule reachable_start)
  show ?thesis
    using r messages_append_only[of "run (start (sconst 0)) session_to_End" "OnDone []"]
    by (simp add: run_to_End step_simps)
qed

text \<open>
  Claim C5. When the call of the completion service fails in \<open>ProcessingResponse\<close>, the
  fallback message is appended and nothing of the failure reaches the participant. In the
  code a rejected \<open>fetch\<close> does not make the actor fail: \<open>fetchChatCompletion\<close> catches
  it and returns a text about the connection, the actor is done with that text, and
  \<open>Loop.Speaking\<close> is entered to speak it.
\<close>
theorem completion_failure_is_spoken:
  "current (run (start (sconst 0)) session_to_ProcessingResponse) = Loop_ProcessingResponse
   \<and> actorEvent (chatCompletion (messages (ctx (run (start (sconst 0)) session_to_ProcessingResponse))) Rejected)
       = OnDone ''Error while connecting to the language model. Probably ssh tunnel is not active.''
   \<and> invoke
        (current (step (run (start (sconst 0)) session_to_ProcessingResponse)
          (actorEvent (chatCompletion (messages (ctx (run (start (sconst 0)) session_to_ProcessingResponse))) Rejected))))
        (ctx (step (run (start (sconst 0)) session_to_ProcessingResponse)
          (actorEvent (chatCompletion (messages (ctx (run (start (sconst 0)) session_to_ProcessingResponse))) Rejected))))
       = Some (Inr (FhSpeak ''Error while connecting to the language model. Probably ssh tunnel is not active.'' False))"
  unfolding run_to_ProcessingResponse
  by (simp add: actorEvent_def chatCompletion_def fetchChatCompletion_def fetchChatCompletion_try_def
      step_simps)

text \<open>
  Claim C6. In \<open>Manipulation.Listening\<close>, an utterance that is classified negative (not
  affirmative, and in the negative set) appends the user message \<open>I am not sure.\<close> and
  leads directly to \<open>Loop.ProcessingResponse\<close>, which invokes the completion service with
  all the messages, the new one included.
\<close>
theorem negative_answer_resumes_processing:
  assumes "current mc = Manipulation_Listening" and "spec_classify u = Negative"
  shows "step mc (OnDone u) =
           mc\<lparr> current := Loop_ProcessingResponse,
               ctx := (ctx mc)\<lparr> lastResult := u,
                 messages := messages (ctx mc) @ [\<lparr> role = User, content = ''I am not sure.'' \<rparr>] \<rparr> \<rparr>
         \<and> invoke (current (step mc (OnDone u))) (ctx (step mc (OnDone u))) =
           Some (Inr (ChatCompletion
             (messages (ctx mc) @ [\<lparr> role = User, content = ''I am not sure.'' \<rparr>])))"
  using assms(1) spec_negative_guards[OF assms(2)]
  by (simp add: step_simps)

theorem negative_answer_resumes_processing_witness:
  "current (run (start (sconst 0)) session_to_Manipulation_Listening) = Manipulation_Listening
   \<and> spec_classify ''No'' = Negative
   \<and> current (step (run (start (sconst 0)) session_to_Manipulation_Listening) (OnDone ''No''))
       = Loop_ProcessingResponse
   \<and> map content (messages (ctx (step (run (start (sconst 0)) session_to_Manipulation_Listening) (OnDone ''No''))))
       = [systemPrompt, greeting, ''I want the Pilot to jump'', ''I am not sure.'']"
proof -
  have c: "current (run (start (sconst 0)) session_to_Manipulation_Listening) = Manipulation_Listening"
    by (simp add: run_to_Manipulation_Listening)
  have n: "trim (toLowerCase ''No'') = ''no''" by code_simp
  have k: "spec_classify ''No'' = Negative"
    by (simp add: spec_classify_def n Let_def flip: str_includes_sublist)
  show ?thesis
    using negative_answer_resumes_processing[OF c k]
    by (simp add: run_to_Manipulation_Listening k initialContext_def)
qed

text \<open>
  Claim C7, as amended. \<open>End\<close> invokes the voice service with the closing line and leads
  to \<open>Done\<close> whether the call succeeds or fails; the closing line is appended as an
  assistant message when the call succeeds, and the context is left as it is when the
  call fails.
\<close>
theorem End_closing_line:
  assumes "current mc = End"
  shows "invoke (current mc) (ctx mc) = Some (Inr (FhSpeak ''Thank you for your participation.'' False))
     \<and> step mc (OnDone out) =
         mc\<lparr> current := Done,
             ctx := (ctx mc)\<lparr> messages := messages (ctx mc) @
               [\<lparr> role = Assistant, content = ''Thank you for your participation.'' \<rparr>] \<rparr> \<rparr>
     \<and> step mc OnError = mc\<lparr> current := Done \<rparr>"
  using assms by (simp add: step_simps)

theorem End_closing_line_witness:
  "current (run (start (sconst 0)) session_to_End) = End
   \<and> current (step (run (start (sconst 0)) session_to_End) (OnDone [])) = Done
   \<and> map content (messages (ctx (step (run (start (sconst 0)) session_to_End) (OnDone []))))
       = [systemPrompt, greeting, ''I want the Pilot to jump'', ''Thank you for your participation.'']
   \<and> current (step (run (start (sconst 0)) session_to_End) OnError) = Done"
proof -
  have c: "current (run (start (sconst 0)) session_to_End) = End"
    by (simp add: run_to_End)
  show ?thesis
    using End_closing_line[OF c, of "[]"]
    by (simp add: run_to_End initialContext_def)
qed

theorem End_error_appends_nothing:
  "current (run (start (sconst 0)) session_to_End) = End
   \<and> current (step (run (start (sconst 0)) session_to_End) OnError) = Done
   \<and> map content (messages (ctx (step (run (start (sconst 0)) session_to_End) OnError)))
       = [systemPrompt, greeting, ''I want the Pilot to jump'']"
  unfolding run_to_End
  by (simp add: step_simps initialContext_def)

text \<open>
  Claim C8. \<open>isFirstMessage\<close> starts true; after any sequence of events it is true if and
  only if no voice call of \<open>Loop.Speaking\<close> has completed successfully; a step makes it
  false exactly when it is such a completion (a failed call leaves it), and no step makes
  it true again.
\<close>
theorem isFirstMessage_until_first_spoken:
  "isFirstMessage (ctx (start r))
   \<and> (isFirstMessage (ctx (run (start r) evs)) \<longleftrightarrow> \<not> spoke (start r) evs)
   \<and> (isFirstMessage (ctx (step mc ev)) \<longleftrightarrow>
        isFirstMessage (ctx mc) \<and> \<not> (current mc = Loop_Speaking \<and> (\<exists>out. ev = OnDone out)))"
  using run_isFirstMessage[of "start r" evs] step_isFirstMessage[of mc ev]
  by (simp add: start_eq initialContext_def)

theorem isFirstMessage_until_first_spoken_witness:
  "isFirstMessage (ctx (run (start (sconst 0)) [OnDone [], OnDone [], OnError]))
   \<and> \<not> spoke (start (sconst 0)) [OnDone [], OnDone [], OnError]
   \<and> \<not> isFirstMessage (ctx (run (start (sconst 0)) [OnDone [], OnDone [], OnError, OnError, OnDone []]))
   \<and> spoke (start (sconst 0)) [OnDone [], OnDone [], OnError, OnError, OnDone []]"
  using isFirstMessage_until_first_spoken[of "sconst 0" "[OnDone [], OnDone [], OnError]"]
    isFirstMessage_until_first_spoken[of "sconst 0" "[OnDone [], OnDone [], OnError, OnError, OnDone []]"]
  by (simp add: start_eq step_simps)

text \<open>
  Claim C9, as amended. Every error transition but that of \<open>End\<close> targets a state
  other than \<open>Done\<close>, and that of \<open>End\<close> targets \<open>Done\<close>; \<open>Done\<close> is entered from \<open>End\<close>
  only; \<open>End\<close> is entered only from \<open>Manipulation.Listening\<close>, on an utterance that
  passes the affirmative guard; so a session that is in \<open>Done\<close> has heard such an
  utterance.
\<close>
theorem Done_only_after_affirmation:
  "(\<forall>n t. t \<in> set (onError n) \<and> n \<noteq> End \<longrightarrow> enter (target t) \<noteq> Done)
   \<and> map target (onError End) = [Done]
   \<and> (current (step mc ev) = Done \<and> current mc \<noteq> Done \<longrightarrow> current mc = End)
   \<and> (current (step mc ev) = End \<and> current mc \<noteq> End \<longrightarrow>
        current mc = Manipulation_Listening \<and> (\<exists>out. ev = OnDone out \<and> isAffirmative out))
   \<and> (current (run (start r) evs) = Done \<longrightarrow> affirmed (start r) evs)"
  using onError_targets step_into_Done[of mc ev] step_into_End[of mc ev]
    run_into_End_or_Done[of "start r" evs]
  by (auto simp: start_eq)

theorem Done_only_after_affirmation_witness:
  "current (step (run (start (sconst 0)) session_to_End) OnError) = Done
   \<and> current (run (start (sconst 0)) session_to_End) = End
   \<and> current (run (start (sconst 0)) session_to_Manipulation_Listening) = Manipulation_Listening
   \<and> isAffirmative ''yes''
   \<and> affirmed (start (sconst 0)) (session_to_End @ [OnError])"
  using Done_only_after_affirmation[of "run (start (sconst 0)) session_to_End" OnError "sconst 0"
      "session_to_End @ [OnError]"]
  by (simp add: run_append run_to_End run_to_Manipulation_Listening step_simps affirmative_yes)

theorem End_error_reaches_Done:
  "map target (onError End) = [Done]
   \<and> current (run (start (sconst 0)) session_to_End) = End
   \<and> step (run (start (sconst 0)) session_to_End) OnError
       = (run (start (sconst 0)) session_to_End)\<lparr> current := Done \<rparr>"
  unfolding run_to_End
  by (simp add: step_simps)

text \<open>
  Claim C10. The three condition states and \<open>Clarify\<close> hand their question to the voice
  service and leave the whole context as it is, whatever the outcome of the call; when a
  stay in \<open>Manipulation\<close> ends in \<open>Loop.ProcessingResponse\<close>, the completion service
  receives the messages with which the stay began followed by \<open>I am not sure.\<close>, hence
  none of the questions spoken meanwhile; and a message that any step appends is a text
  that was heard, a completion that was returned, or one of three fixed texts, never a
  question of \<open>Manipulation\<close>.
\<close>
theorem manipulation_speech_not_recorded:
  "invoke SpeakingWithPause_Condition1 c =
     Some (Inr (FhSpeak (''........   The '' @ extractedPerson c @ ''?'') False))
   \<and> invoke SpeakingWithLaughter_Condition2 c =
     Some (Inr (FhSpeak (''Hahahaha! The '' @ extractedPerson c @ ''?'') False))
   \<and> invoke SpeakingWithBuffer_Condition3 c =
     Some (Inr (FhSpeak (''Hmmmmm, the '' @ extractedPerson c @ ''?'') False))
   \<and> invoke Clarify c = Some (Inr (FhSpeak ''I didn't catch that. Did you say yes or no?'' False))
   \<and> (current mc = SpeakingWithPause_Condition1 \<or> current mc = SpeakingWithLaughter_Condition2
        \<or> current mc = SpeakingWithBuffer_Condition3 \<or> current mc = Clarify \<longrightarrow>
      ctx (step mc ev) = ctx mc)
   \<and> (in_manipulation (current mc) \<and> stays_in_manipulation mc evs
        \<and> current (run mc evs) = Loop_ProcessingResponse \<longrightarrow>
      invoke (current (run mc evs)) (ctx (run mc evs)) =
        Some (Inr (ChatCompletion (messages (ctx mc) @ [\<lparr> role = User, content = ''I am not sure.'' \<rparr>]))))
   \<and> (messages (ctx (step mc ev)) = messages (ctx mc)
      \<or> (\<exists>x. messages (ctx (step mc ev)) = messages (ctx mc) @ [x]
           \<and> (x = \<lparr> role = User, content = event_output ev \<rparr>
              \<or> x = \<lparr> role = Assistant, content = event_output ev \<rparr>
              \<or> x = \<lparr> role = User, content = ''I am not sure.'' \<rparr>
              \<or> x = \<lparr> role = Assistant, content = ''I couldn't process that. Please say it again.'' \<rparr>
              \<or> x = \<lparr> role = Assistant, content = ''Thank you for your participation.'' \<rparr>)))"
proof -
  have frame: "current mc = SpeakingWithPause_Condition1 \<or> current mc = SpeakingWithLaughter_Condition2
        \<or> current mc = SpeakingWithBuffer_Condition3 \<or> current mc = Clarify \<longrightarrow>
      ctx (step mc ev) = ctx mc"
    using speaking_frame[of mc ev] by blast
  have stay: "in_manipulation (current mc) \<and> stays_in_manipulation mc evs
        \<and> current (run mc evs) = Loop_ProcessingResponse \<longrightarrow>
      invoke (current (run mc evs)) (ctx (run mc evs)) =
        Some (Inr (ChatCompletion (messages (ctx mc) @ [\<lparr> role = User, content = ''I am not sure.'' \<rparr>])))"
    using manipulation_run_messages[of mc evs] by (auto simp: in_manipulation_def)
  show ?thesis
    using frame stay step_appends[of mc ev] by simp
qed


lemma maybe_guards: "\<not> isAffirmative ''maybe''" "\<not> isNegative ''maybe''"
  by code_simp+

theorem manipulation_speech_not_recorded_witness:
  "current (run (start (sconst 0)) session_to_Condition3) = SpeakingWithBuffer_Condition3
   \<and> invoke SpeakingWithBuffer_Condition3 (ctx (run (start (sconst 0)) session_to_Condition3)) =
       Some (Inr (FhSpeak ''Hmmmmm, the pilot?'' False))
   \<and> ctx (step (run (start (sconst 0)) session_to_Condition3) (OnDone [])) =
       ctx (run (start (sconst 0)) session_to_Condition3)
   \<and> stays_in_manipulation (run (start (sconst 0)) session_to_Condition3)
       [OnDone [], OnDone ''maybe'', OnError, OnDone ''No'']
   \<and> invoke (current (run (run (start (sconst 0)) session_to_Condition3)
                [OnDone [], OnDone ''maybe'', OnError, OnDone ''No'']))
        (ctx (run (run (start (sconst 0)) session_to_Condition3)
                [OnDone [], OnDone ''maybe'', OnError, OnDone ''No''])) =
       Some (Inr (ChatCompletion
         [\<lparr> role = System, content = systemPrompt \<rparr>, \<lparr> role = Assistant, content = greeting \<rparr>,
          \<lparr> role = User, content = ''I want the Pilot to jump'' \<rparr>,
          \<lparr> role = User, content = ''I am not sure.'' \<rparr>]))"
  using manipulation_speech_not_recorded[of "ctx (run (start (sconst 0)) session_to_Condition3)"
      "run (start (sconst 0)) session_to_Condition3" "OnDone []"
      "[OnDone [], OnDone ''maybe'', OnError, OnDone ''No'']"]
  by (simp add: run_to_Condition3 step_simps in_manipulation_def maybe_guards negative_No
      initialContext_def)

subsection \<open>The selection of the condition\<close>

text \<open>
  The two thresholds are doubles: 53-bit significands scaled by a power of two, below the
  fractions 1/3 and 2/3 by less than half a unit in the last place.
\<close>

lemma oneThird_nearest:
  "(2::nat) ^ 52 \<le> 6004799503160661 \<and> (6004799503160661::nat) < 2 ^ 53
   \<and> oneThird < 1 / 3 \<and> 1 / 3 - oneThird < 1 / 2 ^ 55"
  by (simp add: oneThird_def)

lemma twoThirds_nearest:
  "twoThirds < 2 / 3 \<and> 2 / 3 - twoThirds < 1 / 2 ^ 54"
  by (simp add: twoThirds_def)
















end
